theory Spec2Isabelle
  imports Complex_Main "HOL-Library.Word" "HOL-Library.Monad_Syntax"
begin

unbundle bit_operations_syntax

section \<open>rawparser: TIFF-based camera RAW parsing (CR2, NEF)\<close>

text \<open>
  A shallow embedding of the Go package \<open>rawparser\<close>. Go's fixed-width unsigned
  integers are words, \<open>int64\<close> offsets that are widened from \<open>uint32\<close> are
  integers, byte slices are lists of bytes and Go strings are lists of characters (bytes).
  A function that can panic (a slice or string index out of range) returns an
  \<open>option\<close>: \<open>None\<close> is the panic, \<open>Some r\<close> is a normal return with result
  \<open>r\<close>. Go's \<open>error\<close> results are values of \<open>error option\<close>, with
  \<open>None\<close> for \<open>nil\<close>.
\<close>

type_synonym byte = "8 word"
type_synonym uint16 = "16 word"
type_synonym uint32 = "32 word"

datatype error =
    ShortRead nat nat             \<comment> \<open>readField: "read %d bytes; expected %d"\<close>
  | NegativeOffset                \<comment> \<open>os.File.ReadAt called with a negative offset\<close>
  | EOF                           \<comment> \<open>io.EOF, from os.File.ReadAt\<close>
  | OpenError string              \<comment> \<open>os.Open failed\<close>
  | InvalidDateTime string        \<comment> \<open>"dateTime string invalid: '%s'"\<close>
  | InvalidDateTimeFormat string string
                                  \<comment> \<open>"invalid date and/or time string format: %s %s"\<close>
  | InvalidMonth string           \<comment> \<open>"invalid month: '%s'"\<close>
  | TimeParseError                \<comment> \<open>any *time.ParseError of time.Parse\<close>
  | InvalidJpegLength int         \<comment> \<open>"invalid jpeg length: %d"\<close>
  | CodecError                    \<comment> \<open>an error of the JPEG codec collaborator\<close>

subsection \<open>rawparser.go: data\<close>

record ifdEntry =
  tag :: uint16
  fieldType :: uint16
  count :: uint32
  valueOffset :: uint32

text \<open>An open \<open>*os.File\<close>: the name it was opened under and its contents.\<close>

record osFile =
  fname :: string
  contents :: "byte list"

subsection \<open>tiffutils.go\<close>

text \<open>
  \<open>bytesToUShort\<close>: \<open>buf[0]\<close> and \<open>buf[1]\<close> are read in both branches, so a
  slice shorter than two bytes panics.
\<close>

fun bytesToUShort :: "bool \<Rightarrow> bool \<Rightarrow> byte list \<Rightarrow> uint16 option" where
  "bytesToUShort isHostLittleEndian isBigEndian (b0 # b1 # rest) =
     Some (if isBigEndian \<and> isHostLittleEndian
           then push_bit 8 (ucast b0) OR (ucast b1 AND 0xFF)
           else push_bit 8 (ucast b1) OR (ucast b0 AND 0xFF))"
| "bytesToUShort isHostLittleEndian isBigEndian _ = None"

text \<open>
  \<open>bytesToUInt\<close>: the slice expressions \<open>buf[0:2]\<close> and \<open>buf[2:]\<close> panic on
  a slice shorter than two bytes, and the second \<open>bytesToUShort\<close> on one shorter
  than four.
\<close>

definition bytesToUInt :: "bool \<Rightarrow> bool \<Rightarrow> byte list \<Rightarrow> uint32 option" where
  "bytesToUInt isHostLittleEndian isBigEndian buf =
     (if length buf < 2 then None
      else do {
        a \<leftarrow> bytesToUShort isHostLittleEndian isBigEndian (take 2 buf);
        b \<leftarrow> bytesToUShort isHostLittleEndian isBigEndian (drop 2 buf);
        Some (if isBigEndian \<and> isHostLittleEndian
              then push_bit 16 (ucast a) OR (ucast b AND 0xFFFF)
              else push_bit 16 (ucast b) OR (ucast a AND 0xFFFF))
      })"

text \<open>\<open>string(bytes[:])\<close>: the same bytes as a string.\<close>

definition bytesToASCIIString :: "byte list \<Rightarrow> string" where
  "bytesToASCIIString bytes = map (\<lambda>b. char_of (unat b)) bytes"

text \<open>
  \<open>os.File.ReadAt\<close> on a regular file: a buffer of \<open>n\<close> zero bytes (as
  \<open>make\<close> leaves it) is filled from the file's contents at \<open>offset\<close>. The
  result is the buffer, the number of bytes read and the error: a negative offset is
  refused, a read that ends before the buffer is full gives \<open>io.EOF\<close>, and an empty
  buffer reads nothing and gives no error.
\<close>

definition ReadAt :: "osFile \<Rightarrow> nat \<Rightarrow> int \<Rightarrow> byte list \<times> nat \<times> error option" where
  "ReadAt f n offset =
     (if offset < 0 then (replicate n 0, 0, Some NegativeOffset)
      else let got = take n (drop (nat offset) (contents f))
           in (got @ replicate (n - length got) 0, length got,
               if length got < n then Some EOF else None))"

definition readField :: "int \<Rightarrow> uint32 \<Rightarrow> osFile \<Rightarrow> byte list \<times> error option" where
  "readField offset bytesToRead f =
     (case ReadAt f (unat bytesToRead) offset of
        (cache, bytesRead, err) \<Rightarrow>
          (cache, if bytesRead \<noteq> unat bytesToRead
                  then Some (ShortRead bytesRead (unat bytesToRead)) else err))"

text \<open>
  \<open>processIfd\<close>. The loop \<open>for i := 0; i < int(entries); i++\<close> is a recursion on
  the number of iterations left; its state is the offset, the list built so far and the
  variable \<open>err\<close>, which the final \<open>return l, err\<close> reads. The error of the
  first \<open>readField\<close> (the entry count) is not tested before the loop. The offset is
  an \<open>int64\<close> that every caller widens from a \<open>uint32\<close> and the loop raises by
  at most \<open>2 + 12 * 65535\<close>, so it cannot wrap around and is an integer here.
\<close>

fun processIfd_loop ::
  "bool \<Rightarrow> bool \<Rightarrow> osFile \<Rightarrow> nat \<Rightarrow> int \<Rightarrow> ifdEntry list \<Rightarrow> error option
     \<Rightarrow> (ifdEntry list \<times> error option) option" where
  "processIfd_loop isHostLe isFileBe f 0 offset l err = Some (l, err)"
| "processIfd_loop isHostLe isFileBe f (Suc k) offset l err =
     (case readField offset 2 f of (bytes, err) \<Rightarrow>
      if err \<noteq> None then Some (l, err) else
      do {
        tag_v \<leftarrow> bytesToUShort isHostLe isFileBe bytes;
        case readField (offset + 2) 2 f of (bytes, err) \<Rightarrow>
        if err \<noteq> None then Some (l, err) else
        do {
          type_v \<leftarrow> bytesToUShort isHostLe isFileBe bytes;
          case readField (offset + 4) 4 f of (bytes, err) \<Rightarrow>
          if err \<noteq> None then Some (l, err) else
          do {
            count_v \<leftarrow> bytesToUInt isHostLe isFileBe bytes;
            case readField (offset + 8) 4 f of (bytes, err) \<Rightarrow>
            if err \<noteq> None then Some (l, err) else
            do {
              value_v \<leftarrow> bytesToUInt isHostLe isFileBe bytes;
              processIfd_loop isHostLe isFileBe f k (offset + 12)
                (l @ [\<lparr>tag = tag_v, fieldType = type_v, count = count_v,
                       valueOffset = value_v\<rparr>]) err
            }
          }
        }
      })"

definition processIfd ::
  "bool \<Rightarrow> bool \<Rightarrow> int \<Rightarrow> osFile \<Rightarrow> (ifdEntry list \<times> error option) option" where
  "processIfd isHostLe isFileBe offset f =
     (case readField offset 2 f of (bytes, err) \<Rightarrow>
      do {
        entries \<leftarrow> bytesToUShort isHostLe isFileBe bytes;
        processIfd_loop isHostLe isFileBe f (unat entries) (offset + 2) [] err
      })"

text \<open>
  \<open>processRationalEntry\<close>: the error of the first read is overwritten by the second.
  \<open>float64(num / den)\<close> is the unsigned integer quotient, which is exact in a
  \<open>float64\<close>; floating-point results are the reals they denote.
\<close>

definition processRationalEntry ::
  "bool \<Rightarrow> bool \<Rightarrow> uint32 \<Rightarrow> osFile \<Rightarrow> (uint32 \<times> uint32 \<times> real \<times> error option) option" where
  "processRationalEntry isHostLe isFileBe offset f =
     (case readField (uint offset) 4 f of (bytes, err) \<Rightarrow>
      do {
        num \<leftarrow> bytesToUInt isHostLe isFileBe bytes;
        case readField (uint offset + 4) 4 f of (bytes, err) \<Rightarrow>
        do {
          den \<leftarrow> bytesToUInt isHostLe isFileBe bytes;
          Some (num, den, if den > 0 then real (unat (num div den)) else 0, err)
        }
      })"

definition processASCIIEntry :: "ifdEntry \<Rightarrow> osFile \<Rightarrow> string \<times> error option" where
  "processASCIIEntry entry f =
     (case readField (uint (valueOffset entry)) (count entry) f of
        (bytes, err) \<Rightarrow> (bytesToASCIIString bytes, err))"

definition processShortValue :: "bool \<Rightarrow> uint32 \<Rightarrow> uint16" where
  "processShortValue isFileBe val =
     (let msb = drop_bit 16 val; lsb = val AND 0x0000FFFF
      in if isFileBe then ucast msb else ucast lsb)"

subsection \<open>The Go standard library, as far as the package uses it\<close>

text \<open>
  \<open>strings.Split(s, sep)\<close> for a separator of one byte (the package splits on
  \<open>" "\<close> and \<open>":"\<close> only): the pieces between the separators, in order, one more
  than there are separators; the empty string splits into one empty piece.
\<close>

fun Split :: "string \<Rightarrow> char \<Rightarrow> string list" where
  "Split [] sep = [[]]"
| "Split (c # cs) sep =
     (if c = sep then [] # Split cs sep
      else (case Split cs sep of [] \<Rightarrow> [[c]] | t # ts \<Rightarrow> (c # t) # ts))"

text \<open>An index expression \<open>xs[i]\<close>: out of range it panics.\<close>

definition index_at :: "'a list \<Rightarrow> nat \<Rightarrow> 'a option" where
  "index_at xs i = (if i < length xs then Some (xs ! i) else None)"

text \<open>
  The conversion \<open>string(b)\<close> of a byte \<open>b\<close>: the UTF-8 encoding of the code
  point \<open>b\<close>, which is two bytes from 0x80 on.
\<close>

definition string_of_byte :: "char \<Rightarrow> string" where
  "string_of_byte c =
     (let n = (of_char c :: nat)
      in if n < 128 then [c] else [char_of (192 + n div 64), char_of (128 + n mod 64)])"

text \<open>
  A \<open>time.Time\<close> in UTC with minute precision (the layout the package parses has no
  seconds and no zone). The zero value \<open>Time{}\<close> is January 1 of year 1, 00:00.
\<close>

record gotime =
  t_year :: int
  t_month :: nat
  t_day :: nat
  t_hour :: nat
  t_minute :: nat

definition zeroTime :: gotime where
  "zeroTime = \<lparr>t_year = 1, t_month = 1, t_day = 1, t_hour = 0, t_minute = 0\<rparr>"

text \<open>
  \<open>time.Parse\<close> for the one layout the package uses, \<open>"02 Jan 06 15:04"\<close>,
  following package \<open>time\<close>: a two-digit day, a month name matched without regard to
  case, a two-character year read by \<open>atoi\<close> (69 to 99 are 19xx, the rest 20xx), an
  hour of one or two digits, a two-digit minute, each after its literal prefix, then no
  text left, and a day that exists in the month. In these helper functions \<open>None\<close> is
  the parse error (\<open>errBad\<close>, a range error or extra text); \<open>time.Parse\<close> itself
  does not panic.
\<close>

definition isDigit :: "string \<Rightarrow> nat \<Rightarrow> bool" where
  "isDigit s i = (i < length s \<and> 48 \<le> (of_char (s ! i) :: nat) \<and> (of_char (s ! i) :: nat) \<le> 57)"

definition digitVal :: "char \<Rightarrow> nat" where
  "digitVal c = of_char c - 48"

definition getnum :: "string \<Rightarrow> bool \<Rightarrow> (nat \<times> string) option" where
  "getnum s fixed =
     (if \<not> isDigit s 0 then None
      else if \<not> isDigit s 1 then (if fixed then None else Some (digitVal (s ! 0), drop 1 s))
      else Some (digitVal (s ! 0) * 10 + digitVal (s ! 1), drop 2 s))"

definition cutspace :: "string \<Rightarrow> string" where
  "cutspace s = dropWhile (\<lambda>c. c = CHR '' '') s"

function skip :: "string \<Rightarrow> string \<Rightarrow> string option" where
  "skip v [] = Some v"
| "skip v (p # ps) =
     (if p = CHR '' '' then
        (if v \<noteq> [] \<and> hd v \<noteq> CHR '' '' then None
         else skip (cutspace v) (cutspace (p # ps)))
      else (case v of [] \<Rightarrow> None
            | c # cs \<Rightarrow> if c \<noteq> p then None else skip cs ps))"
  by pat_completeness auto
termination
proof (relation "measure (\<lambda>(v, p). length p)")
  show "wf (measure (\<lambda>(v, p). length p))" by simp
next
  fix v :: string and p :: char and ps :: string
  assume "p = CHR '' ''"
  then have "length (cutspace (p # ps)) \<le> length ps"
    by (simp add: cutspace_def length_dropWhile_le)
  then show "((cutspace v, cutspace (p # ps)), (v, p # ps)) \<in> measure (\<lambda>(v, p). length p)"
    by simp
next
  fix v :: string and p :: char and ps :: string and c :: char and cs :: string
  show "((cs, ps), (v, p # ps)) \<in> measure (\<lambda>(v, p). length p)" by simp
qed

definition lower :: "char \<Rightarrow> nat" where
  "lower c = (of_char c :: nat) OR 32"

definition match :: "string \<Rightarrow> string \<Rightarrow> bool" where
  "match s1 s2 =
     list_all (\<lambda>(c1, c2). if c1 \<noteq> c2
                           then lower c1 = lower c2 \<and> 97 \<le> lower c1 \<and> lower c1 \<le> 122
                           else True) (zip s1 s2)"

fun lookup :: "string list \<Rightarrow> string \<Rightarrow> nat \<Rightarrow> (nat \<times> string) option" where
  "lookup [] val i = None"
| "lookup (v # tab) val i =
     (if length val \<ge> length v \<and> match (take (length v) val) v
      then Some (i, drop (length v) val)
      else lookup tab val (Suc i))"

definition shortMonthNames :: "string list" where
  "shortMonthNames = [''Jan'', ''Feb'', ''Mar'', ''Apr'', ''May'', ''Jun'',
                      ''Jul'', ''Aug'', ''Sep'', ''Oct'', ''Nov'', ''Dec'']"

fun leadingInt :: "string \<Rightarrow> nat \<Rightarrow> nat \<times> string" where
  "leadingInt [] x = (x, [])"
| "leadingInt (c # cs) x =
     (if isDigit [c] 0 then leadingInt cs (x * 10 + digitVal c) else (x, c # cs))"

definition atoi :: "string \<Rightarrow> int option" where
  "atoi s =
     (let signed = (s \<noteq> [] \<and> (hd s = CHR ''-'' \<or> hd s = CHR ''+''));
          neg = (signed \<and> hd s = CHR ''-'')
      in case leadingInt (if signed then tl s else s) 0 of
           (q, rem) \<Rightarrow> if rem \<noteq> [] then None
                       else Some (if neg then - int q else int q))"

definition isLeap :: "int \<Rightarrow> bool" where
  "isLeap y = (y mod 4 = 0 \<and> (y mod 100 \<noteq> 0 \<or> y mod 400 = 0))"

definition daysIn :: "nat \<Rightarrow> int \<Rightarrow> nat" where
  "daysIn m y =
     (if m = 2 \<and> isLeap y then 29
      else [31, 28, 31, 30, 31, 30, 31, 31, 30, 31, 30, 31] ! (m - 1))"

definition time_Parse_fields :: "string \<Rightarrow> gotime option" where
  "time_Parse_fields v0 =
     do {
       (d, v1) \<leftarrow> getnum v0 True;
       v2 \<leftarrow> skip v1 '' '';
       (m, v3) \<leftarrow> lookup shortMonthNames v2 0;
       v4 \<leftarrow> skip v3 '' '';
       (y, v5) \<leftarrow> (if length v4 < 2 then None
                   else do {
                     yy \<leftarrow> atoi (take 2 v4);
                     Some (if yy \<ge> 69 then yy + 1900 else yy + 2000, drop 2 v4)
                   });
       v6 \<leftarrow> skip v5 '' '';
       (h, v7) \<leftarrow> getnum v6 False;
       if 24 \<le> h then None else
       do {
         v8 \<leftarrow> skip v7 '':'';
         (mi, v9) \<leftarrow> getnum v8 True;
         if 60 \<le> mi then None
         else if v9 \<noteq> [] then None
         else if d < 1 \<or> d > daysIn (m + 1) y then None
         else Some \<lparr>t_year = y, t_month = m + 1, t_day = d, t_hour = h, t_minute = mi\<rparr>
       }
     }"

definition time_Parse :: "string \<Rightarrow> gotime \<times> error option" where
  "time_Parse v =
     (case time_Parse_fields v of
        None \<Rightarrow> (zeroTime, Some TimeParseError)
      | Some t \<Rightarrow> (t, None))"

text \<open>
  \<open>filepath.Base\<close> with \<open>/\<close> as the separator: the last element of the path,
  trailing separators removed first; \<open>"."\<close> for the empty path and \<open>"/"\<close> for a
  path of separators only.
\<close>

definition Base :: "string \<Rightarrow> string" where
  "Base path =
     (if path = [] then ''.''
      else let p = rev (dropWhile (\<lambda>c. c = CHR ''/'') (rev path));
               e = rev (takeWhile (\<lambda>c. c \<noteq> CHR ''/'') (rev p))
           in if e = [] then ''/'' else e)"

subsection \<open>rawparser.go: functions\<close>

text \<open>
  \<open>toRfc822Date\<close> reads \<open>dateTokens[1]\<close>; the \<open>switch\<close> on the token is an
  exact string comparison.
\<close>

definition toRfc822Date :: "string list \<Rightarrow> (string \<times> error option) option" where
  "toRfc822Date dateTokens =
     do {
       token \<leftarrow> index_at dateTokens 1;
       Some (if token = ''01'' then (''Jan'', None)
             else if token = ''02'' then (''Feb'', None)
             else if token = ''03'' then (''Mar'', None)
             else if token = ''04'' then (''Apr'', None)
             else if token = ''05'' then (''May'', None)
             else if token = ''06'' then (''Jun'', None)
             else if token = ''07'' then (''Jul'', None)
             else if token = ''08'' then (''Aug'', None)
             else if token = ''09'' then (''Sep'', None)
             else if token = ''10'' then (''Oct'', None)
             else if token = ''11'' then (''Nov'', None)
             else if token = ''12'' then (''Dec'', None)
             else ([], Some (InvalidMonth token)))
     }"

text \<open>
  \<open>parseDateTime\<close> returns the pair \<open>(t, err)\<close>; \<open>t\<close> is the zero time on
  every error path. The characters \<open>dateTokens[0][2]\<close> and \<open>dateTokens[0][3]\<close>
  are indexed without a length check.
\<close>

definition parseDateTime :: "string \<Rightarrow> (gotime \<times> error option) option" where
  "parseDateTime s =
     (let split = Split s CHR '' '' in
      if length split \<noteq> 2 then Some (zeroTime, Some (InvalidDateTime s))
      else
        let dateToken = split ! 0;
            timeToken = split ! 1;
            dateTokens = Split dateToken CHR '':'';
            timeTokens = Split timeToken CHR '':''
        in if length dateTokens = 3 \<and> length timeTokens = 3 then
             do {
               (montStr, err) \<leftarrow> toRfc822Date dateTokens;
               if err \<noteq> None then Some (zeroTime, err)
               else do {
                 y2 \<leftarrow> index_at (dateTokens ! 0) 2;
                 y3 \<leftarrow> index_at (dateTokens ! 0) 3;
                 let dateStr = dateTokens ! 2 @ '' '' @ montStr @ '' ''
                                 @ string_of_byte y2 @ string_of_byte y3;
                 Some (time_Parse (dateStr @ '' '' @ timeTokens ! 0 @ '':'' @ timeTokens ! 1))
               }
             }
           else Some (zeroTime, Some (InvalidDateTimeFormat dateToken timeToken)))"

definition genExtractedJpegName :: "osFile \<Rightarrow> string \<Rightarrow> string \<Rightarrow> string" where
  "genExtractedJpegName f destDir suffix = destDir @ Base (fname f) @ suffix"

subsection \<open>rawparser.go: results\<close>

text \<open>
  \<open>jpegInfo\<close>. The field \<open>length\<close> is \<open>length'\<close> here. \<open>offset\<close> and
  \<open>length\<close> are \<open>int64\<close> values that are only ever assigned from a \<open>uint32\<close>.
\<close>

record jpegInfo =
  orientation :: real
  offset :: int
  length' :: int
  xRes :: uint32
  yRes :: uint32
  xResFloat :: real
  yResFloat :: real

definition zeroJpegInfo :: jpegInfo where
  "zeroJpegInfo = \<lparr>orientation = 0, offset = 0, length' = 0, xRes = 0, yRes = 0,
                    xResFloat = 0, yResFloat = 0\<rparr>"

record RawFileInfo =
  File :: string
  DestDir :: string
  Quality :: int
  NumOfChannels :: int

record RawFile =
  CreateDate :: gotime
  FileName :: string
  JpegPath :: string
  JpegOrientation :: real

definition zeroRawFile :: RawFile where
  "zeroRawFile = \<lparr>CreateDate = zeroTime, FileName = [], JpegPath = [], JpegOrientation = 0\<rparr>"

text \<open>The constant \<open>270 * math.Pi / 180\<close> of both tag interpreters.\<close>

definition rotationRads :: real where
  "rotationRads = 270 * pi / 180"

text \<open>
  The codec collaborator \<open>decodeAndWriteJpeg(data, quality, filename)\<close> is chosen at
  build time; the parsers take it as a parameter. Each parse reports the calls it made
  to the codec, in order.
\<close>

type_synonym codec = "byte list \<Rightarrow> int \<Rightarrow> string \<Rightarrow> error option"
type_synonym codec_call = "byte list \<times> int \<times> string"

text \<open>
  The method \<open>decodeAndWriteJpeg\<close>, the same in both parsers: \<open>make\<close> panics
  on a negative length; the codec is called only after \<open>ReadAt\<close> filled the buffer.
\<close>

definition decodeAndWriteJpeg ::
  "codec \<Rightarrow> osFile \<Rightarrow> jpegInfo \<Rightarrow> string \<Rightarrow> int
     \<Rightarrow> (string \<times> error option \<times> codec_call list) option" where
  "decodeAndWriteJpeg cdc f j destDir quality =
     (let jpegFileName = genExtractedJpegName f destDir ''_extracted.jpg'' in
      if length' j < 0 then None
      else case ReadAt f (nat (length' j)) (offset j) of
             (data, n, err) \<Rightarrow>
               if err \<noteq> None then Some (jpegFileName, err, [])
               else Some (jpegFileName, cdc data quality jpegFileName,
                          [(data, quality, jpegFileName)]))"

subsection \<open>nefparser.go\<close>

record nefHeader =
  isBigEndian :: bool
  tiffMagicValue :: uint16
  tiffOffset :: int

definition NefParser_processHeader :: "bool \<Rightarrow> osFile \<Rightarrow> (nefHeader \<times> error option) option" where
  "NefParser_processHeader hostIsLittleEndian f =
     (let h = \<lparr>isBigEndian = False, tiffMagicValue = 0, tiffOffset = 0\<rparr> in
      case readField 0 2 f of (bytes, err) \<Rightarrow>
      if err \<noteq> None then Some (h, err) else
      do {
        byteOrder \<leftarrow> bytesToUShort hostIsLittleEndian False bytes;
        let h = h\<lparr>isBigEndian := (byteOrder = 0x4D4D)\<rparr>;
        case readField 2 2 f of (bytes, err) \<Rightarrow>
        if err \<noteq> None then Some (h, err) else
        do {
          magic \<leftarrow> bytesToUShort hostIsLittleEndian (isBigEndian h) bytes;
          let h = h\<lparr>tiffMagicValue := magic\<rparr>;
          case readField 4 4 f of (bytes, err) \<Rightarrow>
          if err \<noteq> None then Some (h, err) else
          do {
            val \<leftarrow> bytesToUInt hostIsLittleEndian (isBigEndian h) bytes;
            Some (h\<lparr>tiffOffset := uint val\<rparr>, err)
          }
        }
      })"

text \<open>
  The loop over the SubIFD's entries. The error of \<open>processRationalEntry\<close> is
  assigned to a variable that nothing reads afterwards.
\<close>

fun NefParser_subIfd_loop ::
  "bool \<Rightarrow> bool \<Rightarrow> osFile \<Rightarrow> ifdEntry list \<Rightarrow> jpegInfo \<Rightarrow> jpegInfo option" where
  "NefParser_subIfd_loop hostLe fileBe f [] jpeg = Some jpeg"
| "NefParser_subIfd_loop hostLe fileBe f (subID0Entry # es) jpeg =
     do {
       jpeg1 \<leftarrow> (if tag subID0Entry = 0x011a
                 then do {
                   (num, den, r, err) \<leftarrow>
                     processRationalEntry hostLe fileBe (valueOffset subID0Entry) f;
                   Some (jpeg\<lparr>xRes := num, xResFloat := r\<rparr>)
                 }
                 else Some jpeg);
       jpeg2 \<leftarrow> (if tag subID0Entry = 0x011b
                 then do {
                   (num, den, r, err) \<leftarrow>
                     processRationalEntry hostLe fileBe (valueOffset subID0Entry) f;
                   Some (jpeg1\<lparr>yRes := num, yResFloat := r\<rparr>)
                 }
                 else Some jpeg1);
       let jpeg3 = (if tag subID0Entry = 0x0201
                    then jpeg2\<lparr>offset := uint (valueOffset subID0Entry)\<rparr> else jpeg2);
       let jpeg4 = (if tag subID0Entry = 0x0202
                    then jpeg3\<lparr>length' := uint (valueOffset subID0Entry)\<rparr> else jpeg3);
       NefParser_subIfd_loop hostLe fileBe f es jpeg4
     }"

text \<open>
  The loop over the EXIF IFD's entries: \<open>cDate, err = parseDateTime(createDate)\<close>
  assigns the returned time also when the parse failed; its error is local to the block.
\<close>

fun NefParser_exif_loop :: "osFile \<Rightarrow> ifdEntry list \<Rightarrow> gotime \<Rightarrow> gotime option" where
  "NefParser_exif_loop f [] cDate = Some cDate"
| "NefParser_exif_loop f (exifEntry # es) cDate =
     (if tag exifEntry = 0x9004 then
        (case processASCIIEntry exifEntry f of (createDate, err) \<Rightarrow>
           if err = None then
             do {
               (t, err) \<leftarrow> parseDateTime createDate;
               NefParser_exif_loop f es t
             }
           else NefParser_exif_loop f es cDate)
      else NefParser_exif_loop f es cDate)"

text \<open>
  The loop over the root IFD's entries. \<open>err\<close> is the function's result variable,
  which no branch of the loop assigns: the branches declare their own.
\<close>

fun NefParser_ifd_loop ::
  "bool \<Rightarrow> bool \<Rightarrow> osFile \<Rightarrow> ifdEntry list \<Rightarrow> jpegInfo \<Rightarrow> gotime \<Rightarrow> error option
     \<Rightarrow> (jpegInfo \<times> gotime \<times> error option) option" where
  "NefParser_ifd_loop hostLe fileBe f [] jpeg cDate err = Some (jpeg, cDate, err)"
| "NefParser_ifd_loop hostLe fileBe f (entry # es) jpeg cDate err =
     (if tag entry = 0x014a then
        (case readField (uint (valueOffset entry)) 4 f of (bytes, err1) \<Rightarrow>
           if err1 = None then
             do {
               v \<leftarrow> bytesToUInt hostLe fileBe bytes;
               (subIfd0Entries, err2) \<leftarrow> processIfd hostLe fileBe (uint v) f;
               if err2 = None then
                 do {
                   jpeg1 \<leftarrow> NefParser_subIfd_loop hostLe fileBe f subIfd0Entries jpeg;
                   NefParser_ifd_loop hostLe fileBe f es jpeg1 cDate err
                 }
               else Some (jpeg, cDate, err2)
             }
           else NefParser_ifd_loop hostLe fileBe f es jpeg cDate err)
      else if tag entry = 0x0112 then
        (let ov = processShortValue fileBe (valueOffset entry)
         in NefParser_ifd_loop hostLe fileBe f es
              (jpeg\<lparr>orientation := (if ov = 8 then rotationRads else 0.0)\<rparr>) cDate err)
      else if tag entry = 0x8769 then
        do {
          (exifEntries, err3) \<leftarrow> processIfd hostLe fileBe (uint (valueOffset entry)) f;
          if err3 = None then
            do {
              cDate1 \<leftarrow> NefParser_exif_loop f exifEntries cDate;
              NefParser_ifd_loop hostLe fileBe f es jpeg cDate1 err
            }
          else Some (jpeg, cDate, err3)
        }
      else NefParser_ifd_loop hostLe fileBe f es jpeg cDate err)"

definition NefParser_processIfds ::
  "bool \<Rightarrow> osFile \<Rightarrow> nefHeader \<Rightarrow> (jpegInfo \<times> gotime \<times> error option) option" where
  "NefParser_processIfds hostIsLittleEndian f h =
     do {
       (entries, err) \<leftarrow> processIfd hostIsLittleEndian (isBigEndian h) (tiffOffset h) f;
       if err = None
       then NefParser_ifd_loop hostIsLittleEndian (isBigEndian h) f entries
              zeroJpegInfo zeroTime err
       else Some (zeroJpegInfo, zeroTime, err)
     }"

text \<open>
  \<open>NefParser.ProcessFile\<close>. \<open>fs\<close> is the file system \<open>os.Open\<close> looks the
  path up in. Inside the \<open>else\<close> block \<open>h, err := n.processHeader(f)\<close> declares a
  new \<open>err\<close>, which \<open>processIfds\<close> and \<open>decodeAndWriteJpeg\<close> then overwrite;
  the last \<open>return nef, err\<close> is outside the block and reads the result variable
  \<open>err\<close>, the \<open>nil\<close> of the successful \<open>os.Open\<close>.
\<close>

definition NefParser_ProcessFile ::
  "bool \<Rightarrow> (string \<Rightarrow> byte list option) \<Rightarrow> codec \<Rightarrow> RawFileInfo
     \<Rightarrow> (RawFile \<times> error option \<times> codec_call list) option" where
  "NefParser_ProcessFile hostIsLittleEndian fs cdc info =
     (let nef = zeroRawFile in
      case fs (File info) of
        None \<Rightarrow> Some (nef, Some (OpenError (File info)), [])
      | Some bytes \<Rightarrow>
          let f = \<lparr>fname = File info, contents = bytes\<rparr> in
          do {
            (h, err1) \<leftarrow> NefParser_processHeader hostIsLittleEndian f;
            (j, createDate, err2) \<leftarrow> NefParser_processIfds hostIsLittleEndian f h;
            if err2 \<noteq> None then Some (nef, err2, [])
            else if length' j \<le> 0 then Some (nef, Some (InvalidJpegLength (length' j)), [])
            else do {
              (jpegPath, err3, calls) \<leftarrow>
                decodeAndWriteJpeg cdc f j (DestDir info) (Quality info);
              if err3 = None
              then Some (nef\<lparr>FileName := File info, CreateDate := createDate,
                              JpegPath := jpegPath, JpegOrientation := orientation j\<rparr>,
                         None, calls)
              else Some (nef, None, calls)
            }
          })"

subsection \<open>The CR2 parser (Cr2Parser)\<close>

text \<open>
  \<open>cr2Header\<close> has the three fields of \<open>nefHeader\<close> and three of its own; it is
  the record extended, so that the field names stay the source's.
\<close>

record cr2Header = nefHeader +
  cr2MagicValue :: string
  cr2MajorValue :: byte
  cr2MinorValue :: byte

definition Cr2Parser_processHeader :: "bool \<Rightarrow> osFile \<Rightarrow> (cr2Header \<times> error option) option" where
  "Cr2Parser_processHeader hostIsLittleEndian f =
     (let h = \<lparr>isBigEndian = False, tiffMagicValue = 0, tiffOffset = 0,
                cr2MagicValue = [], cr2MajorValue = 0, cr2MinorValue = 0\<rparr> in
      case readField 0 2 f of (bytes, err) \<Rightarrow>
      if err \<noteq> None then Some (h, err) else
      do {
        byteOrder \<leftarrow> bytesToUShort hostIsLittleEndian False bytes;
        let h = h\<lparr>isBigEndian := (byteOrder = 0x4D4D)\<rparr>;
        case readField 2 2 f of (bytes, err) \<Rightarrow>
        if err \<noteq> None then Some (h, err) else
        do {
          magic \<leftarrow> bytesToUShort hostIsLittleEndian (isBigEndian h) bytes;
          let h = h\<lparr>tiffMagicValue := magic\<rparr>;
          case readField 4 4 f of (bytes, err) \<Rightarrow>
          if err \<noteq> None then Some (h, err) else
          do {
            val \<leftarrow> bytesToUInt hostIsLittleEndian (isBigEndian h) bytes;
            let h = h\<lparr>tiffOffset := uint val\<rparr>;
            case readField 8 2 f of (bytes, err) \<Rightarrow>
            if err \<noteq> None then Some (h, err) else
            let h = h\<lparr>cr2MagicValue := bytesToASCIIString bytes\<rparr> in
            case readField 10 1 f of (bytes, err) \<Rightarrow>
            if err \<noteq> None then Some (h, err) else
            do {
              major \<leftarrow> index_at bytes 0;
              let h = h\<lparr>cr2MajorValue := major\<rparr>;
              case readField 11 1 f of (bytes, err) \<Rightarrow>
              if err \<noteq> None then Some (h, err) else
              do {
                minor \<leftarrow> index_at bytes 0;
                Some (h\<lparr>cr2MinorValue := minor\<rparr>, err)
              }
            }
          }
        }
      })"

text \<open>
  The loop over the EXIF IFD's entries: \<open>cDate, _ = parseDateTime(createDate)\<close>
  assigns the returned time and drops the error.
\<close>

fun Cr2Parser_exif_loop :: "osFile \<Rightarrow> ifdEntry list \<Rightarrow> gotime \<Rightarrow> gotime option" where
  "Cr2Parser_exif_loop f [] cDate = Some cDate"
| "Cr2Parser_exif_loop f (exifEntry # es) cDate =
     (if tag exifEntry = 0x9004 then
        (case processASCIIEntry exifEntry f of (createDate, err) \<Rightarrow>
           if err = None then
             do {
               (t, err) \<leftarrow> parseDateTime createDate;
               Cr2Parser_exif_loop f es t
             }
           else Cr2Parser_exif_loop f es cDate)
      else Cr2Parser_exif_loop f es cDate)"

text \<open>
  The loop over the root IFD's entries, a \<open>switch\<close> on the tag. The two resolution
  cases assign the function's result variable \<open>err\<close>; the EXIF case declares its
  own.
\<close>

fun Cr2Parser_ifd_loop ::
  "bool \<Rightarrow> bool \<Rightarrow> osFile \<Rightarrow> ifdEntry list \<Rightarrow> jpegInfo \<Rightarrow> gotime \<Rightarrow> error option
     \<Rightarrow> (jpegInfo \<times> gotime \<times> error option) option" where
  "Cr2Parser_ifd_loop hostLe fileBe f [] jpeg cDate err = Some (jpeg, cDate, err)"
| "Cr2Parser_ifd_loop hostLe fileBe f (entry # es) jpeg cDate err =
     (if tag entry = 0x0111 then
        Cr2Parser_ifd_loop hostLe fileBe f es
          (jpeg\<lparr>offset := uint (valueOffset entry)\<rparr>) cDate err
      else if tag entry = 0x0112 then
        (let ov = processShortValue fileBe (valueOffset entry)
         in Cr2Parser_ifd_loop hostLe fileBe f es
              (jpeg\<lparr>orientation := (if ov = 8 then rotationRads else 0.0)\<rparr>) cDate err)
      else if tag entry = 0x0117 then
        Cr2Parser_ifd_loop hostLe fileBe f es
          (jpeg\<lparr>length' := uint (valueOffset entry)\<rparr>) cDate err
      else if tag entry = 0x011a then
        do {
          (num, den, r, err1) \<leftarrow> processRationalEntry hostLe fileBe (valueOffset entry) f;
          Cr2Parser_ifd_loop hostLe fileBe f es
            (jpeg\<lparr>xRes := num, xResFloat := r\<rparr>) cDate err1
        }
      else if tag entry = 0x011b then
        do {
          (num, den, r, err1) \<leftarrow> processRationalEntry hostLe fileBe (valueOffset entry) f;
          Cr2Parser_ifd_loop hostLe fileBe f es
            (jpeg\<lparr>yRes := num, yResFloat := r\<rparr>) cDate err1
        }
      else if tag entry = 0x8769 then
        do {
          (exifEntries, err2) \<leftarrow> processIfd hostLe fileBe (uint (valueOffset entry)) f;
          if err2 \<noteq> None then Some (jpeg, cDate, err2)
          else do {
            cDate1 \<leftarrow> Cr2Parser_exif_loop f exifEntries cDate;
            Cr2Parser_ifd_loop hostLe fileBe f es jpeg cDate1 err
          }
        }
      else Cr2Parser_ifd_loop hostLe fileBe f es jpeg cDate err)"

definition Cr2Parser_processIfds ::
  "bool \<Rightarrow> osFile \<Rightarrow> cr2Header \<Rightarrow> (jpegInfo \<times> gotime \<times> error option) option" where
  "Cr2Parser_processIfds hostIsLittleEndian f h =
     do {
       (entries, err) \<leftarrow> processIfd hostIsLittleEndian (isBigEndian h) (tiffOffset h) f;
       if err \<noteq> None then Some (zeroJpegInfo, zeroTime, err)
       else Cr2Parser_ifd_loop hostIsLittleEndian (isBigEndian h) f entries
              zeroJpegInfo zeroTime err
     }"

text \<open>
  \<open>Cr2Parser.ProcessFile\<close>. The error of \<open>processHeader\<close> is dropped
  (\<open>h, _ :=\<close>). \<open>jpegInfo, createDate, err := n.processIfds(f, h)\<close> declares a new
  \<open>err\<close> inside the \<open>else\<close> block, and the block has no \<open>return\<close>: the only
  \<open>return CR2, err\<close> reads the result variable \<open>err\<close>, the \<open>nil\<close> of the
  successful \<open>os.Open\<close>. The length of the JPEG is not tested.
\<close>

definition Cr2Parser_ProcessFile ::
  "bool \<Rightarrow> (string \<Rightarrow> byte list option) \<Rightarrow> codec \<Rightarrow> RawFileInfo
     \<Rightarrow> (RawFile \<times> error option \<times> codec_call list) option" where
  "Cr2Parser_ProcessFile hostIsLittleEndian fs cdc info =
     (let cr2 = zeroRawFile in
      case fs (File info) of
        None \<Rightarrow> Some (cr2, Some (OpenError (File info)), [])
      | Some bytes \<Rightarrow>
          let f = \<lparr>fname = File info, contents = bytes\<rparr> in
          do {
            (h, err1) \<leftarrow> Cr2Parser_processHeader hostIsLittleEndian f;
            (j, createDate, err2) \<leftarrow> Cr2Parser_processIfds hostIsLittleEndian f h;
            if err2 = None then
              do {
                (jpegPath, err3, calls) \<leftarrow>
                  decodeAndWriteJpeg cdc f j (DestDir info) (Quality info);
                if err3 = None
                then Some (cr2\<lparr>FileName := File info, CreateDate := createDate,
                                JpegPath := jpegPath, JpegOrientation := orientation j\<rparr>,
                           None, calls)
                else Some (cr2, None, calls)
              }
            else Some (cr2, None, [])
          })"

text \<open>
  \<open>rotationRads\<close> is kept symbolic when terms are evaluated: \<open>pi\<close> has no code
  equation.
\<close>

declare rotationRads_def [code del]

subsection \<open>The conversion rule of the specification\<close>

text \<open>
  The rule in the specification's words: the two bytes are taken as they lie in the file;
  copied verbatim into a 16-bit integer of the host they read \<open>verbatim16\<close>; when the
  byte order of the file differs from the host's the value is byte-swapped, otherwise it
  is the verbatim one. The orders differ when the host is little-endian and the file
  big-endian, or the host big-endian and the file little-endian.
\<close>

definition verbatim16 :: "bool \<Rightarrow> byte \<Rightarrow> byte \<Rightarrow> uint16" where
  "verbatim16 hostIsLittleEndian b0 b1 =
     (if hostIsLittleEndian then push_bit 8 (ucast b1) OR ucast b0
      else push_bit 8 (ucast b0) OR ucast b1)"

definition byteSwap16 :: "uint16 \<Rightarrow> uint16" where
  "byteSwap16 x = push_bit 8 x OR drop_bit 8 x"

definition toUShort_spec :: "bool \<Rightarrow> bool \<Rightarrow> byte \<Rightarrow> byte \<Rightarrow> uint16" where
  "toUShort_spec hostIsLittleEndian fileIsBigEndian b0 b1 =
     (if hostIsLittleEndian = fileIsBigEndian
      then byteSwap16 (verbatim16 hostIsLittleEndian b0 b1)
      else verbatim16 hostIsLittleEndian b0 b1)"

subsection \<open>Sample inputs\<close>

text \<open>
  An NEF header with the magic 43 in place of 42, and a CR2 header whose magic is 0x1234,
  whose root offset points far outside the file and whose container magic and version are
  arbitrary bytes.
\<close>

definition sample_nef_header :: osFile where
  "sample_nef_header =
     \<lparr>fname = ''a.NEF'', contents = [0x49, 0x49, 0x2B, 0x00, 0x08, 0x00, 0x00, 0x00]\<rparr>"

definition sample_cr2_header :: osFile where
  "sample_cr2_header =
     \<lparr>fname = ''a.CR2'',
      contents = [0x4D, 0x4D, 0x12, 0x34, 0xFF, 0xFF, 0xFF, 0xF0, 0x58, 0x59, 0x07, 0x09]\<rparr>"

text \<open>Eight bytes holding the rational 72/32 in little-endian order.\<close>

definition sample_rational :: osFile where
  "sample_rational = \<lparr>fname = ''r'', contents = [72, 0, 0, 0, 32, 0, 0, 0]\<rparr>"

text \<open>An orientation entry with the short value 8 and an entry with tag 0x0117.\<close>

definition sample_orientation_entry :: ifdEntry where
  "sample_orientation_entry = \<lparr>tag = 0x0112, fieldType = 3, count = 1, valueOffset = 8\<rparr>"

definition sample_length_entry :: ifdEntry where
  "sample_length_entry = \<lparr>tag = 0x0117, fieldType = 4, count = 1, valueOffset = 100\<rparr>"

text \<open>
  A file system holding one file, \<open>a.raw\<close>, the request to parse it, and a codec
  that fails on every input.
\<close>

definition sample_fs :: "byte list \<Rightarrow> string \<Rightarrow> byte list option" where
  "sample_fs bytes = (\<lambda>name. if name = ''a.raw'' then Some bytes else None)"

definition sample_info :: RawFileInfo where
  "sample_info = \<lparr>File = ''a.raw'', DestDir = ''out/'', Quality = 50, NumOfChannels = 3\<rparr>"

definition failing_codec :: codec where
  "failing_codec = (\<lambda>data quality filename. Some CodecError)"

definition accepting_codec :: codec where
  "accepting_codec = (\<lambda>data quality filename. None)"

text \<open>
  A little-endian CR2 file with a well-formed 12-byte header (magic 42, root directory at
  offset 12, container magic \<open>CR\<close>, version 2.0) and a root directory with no entries,
  so that no tag gives the JPEG a length.
\<close>

definition sample_cr2_no_jpeg :: "byte list" where
  "sample_cr2_no_jpeg =
     [0x49, 0x49, 0x2A, 0x00, 0x0C, 0x00, 0x00, 0x00, 0x43, 0x52, 0x02, 0x00, 0x00, 0x00]"

text \<open>
  A little-endian NEF file: header (root directory at 8); a root directory with the one
  entry \<open>0x014a\<close> whose value offset 22 holds the SubIFD's offset 26; a SubIFD with
  the entries \<open>0x0201\<close> (JPEG offset 52) and \<open>0x0202\<close> (JPEG length 2); and the
  two bytes \<open>FF D8\<close> at offset 52.
\<close>

definition sample_nef :: "byte list" where
  "sample_nef =
     [0x49, 0x49, 0x2A, 0x00, 0x08, 0x00, 0x00, 0x00,
      0x01, 0x00,
      0x4A, 0x01, 0x04, 0x00, 0x01, 0x00, 0x00, 0x00, 0x16, 0x00, 0x00, 0x00,
      0x1A, 0x00, 0x00, 0x00,
      0x02, 0x00,
      0x01, 0x02, 0x04, 0x00, 0x01, 0x00, 0x00, 0x00, 0x34, 0x00, 0x00, 0x00,
      0x02, 0x02, 0x04, 0x00, 0x01, 0x00, 0x00, 0x00, 0x02, 0x00, 0x00, 0x00,
      0xFF, 0xD8]"

text \<open>The twelve month tokens of \<open>toRfc822Date\<close>.\<close>

definition monthTokens :: "string list" where
  "monthTokens = [''01'', ''02'', ''03'', ''04'', ''05'', ''06'',
                  ''07'', ''08'', ''09'', ''10'', ''11'', ''12'']"

subsection \<open>The directory layout of the specification\<close>

text \<open>
  The specification's description of a directory, for comparison with \<open>processIfd\<close>:
  \<open>records k p cs\<close> are the \<open>k\<close> consecutive 12-byte records of \<open>cs\<close> that
  start at position \<open>p\<close>, and \<open>decodeEntry_spec\<close> decodes one record as tag (2
  bytes), field type (2 bytes), count (4 bytes) and value or offset (4 bytes) with the
  package's two conversion functions.
\<close>

fun records :: "nat \<Rightarrow> nat \<Rightarrow> byte list \<Rightarrow> byte list list" where
  "records 0 p cs = []"
| "records (Suc k) p cs = take 12 (drop p cs) # records k (p + 12) cs"

definition decodeEntry_spec :: "bool \<Rightarrow> bool \<Rightarrow> byte list \<Rightarrow> ifdEntry option" where
  "decodeEntry_spec isHostLe isFileBe r =
     do {
       t \<leftarrow> bytesToUShort isHostLe isFileBe (take 2 r);
       ty \<leftarrow> bytesToUShort isHostLe isFileBe (take 2 (drop 2 r));
       c \<leftarrow> bytesToUInt isHostLe isFileBe (take 4 (drop 4 r));
       v \<leftarrow> bytesToUInt isHostLe isFileBe (take 4 (drop 8 r));
       Some \<lparr>tag = t, fieldType = ty, count = c, valueOffset = v\<rparr>
     }"

text \<open>A file of two bytes that announces 65535 directory entries and holds none.\<close>

definition sample_hostile_count :: osFile where
  "sample_hostile_count = \<lparr>fname = ''h'', contents = [0xFF, 0xFF]\<rparr>"

subsection \<open>Well-formed timestamps\<close>

text \<open>
  A sub-token is numeric when it is a non-empty string of decimal digits. A well-formed
  \<open>YYYY:MM:DD HH:MM:SS\<close> timestamp has a year of four digits, a month from
  \<open>01\<close> to \<open>12\<close>, and a day, an hour and a minute of two digits each that denote
  a day of that month, an hour below 24 and a minute below 60; \<open>timestamp\<close> is the
  time it denotes at minute precision, the century of the two-digit year chosen as
  \<open>time.Parse\<close> does (69 to 99 are 19xx, 00 to 68 are 20xx).
\<close>

definition numeric :: "string \<Rightarrow> bool" where
  "numeric t = (t \<noteq> [] \<and> list_all (\<lambda>c. isDigit [c] 0) t)"

definition num2 :: "string \<Rightarrow> nat" where
  "num2 t = digitVal (t ! 0) * 10 + digitVal (t ! 1)"

definition year2 :: "string \<Rightarrow> int" where
  "year2 yy = (if 69 \<le> num2 yy then 1900 + int (num2 yy) else 2000 + int (num2 yy))"

definition wellformed :: "string \<Rightarrow> string \<Rightarrow> string \<Rightarrow> string \<Rightarrow> string \<Rightarrow> bool" where
  "wellformed y mo d h mi =
     (length y = 4 \<and> numeric y \<and> mo \<in> set monthTokens
      \<and> length d = 2 \<and> numeric d \<and> length h = 2 \<and> numeric h \<and> length mi = 2 \<and> numeric mi
      \<and> 1 \<le> num2 d \<and> num2 d \<le> daysIn (num2 mo) (year2 (drop 2 y))
      \<and> num2 h < 24 \<and> num2 mi < 60)"

definition timestamp :: "string \<Rightarrow> string \<Rightarrow> string \<Rightarrow> string \<Rightarrow> string \<Rightarrow> gotime" where
  "timestamp y mo d h mi =
     \<lparr>t_year = year2 (drop 2 y), t_month = num2 mo, t_day = num2 d,
      t_hour = num2 h, t_minute = num2 mi\<rparr>"

section \<open>Properties\<close>

subsection \<open>Bytes and words\<close>

lemma mask8_u16: "(0xFF :: uint16) = mask 8"
  by (simp add: mask_eq_exp_minus_1)

lemma mask16_u32: "(0xFFFF :: uint32) = mask 16"
  by (simp add: mask_eq_exp_minus_1)

lemma u16_lo:
  "ucast (push_bit 8 (ucast (b1::byte)) OR (ucast (b0::byte) AND 0xFF) :: uint16) = b0"
  unfolding mask8_u16
  by (rule bit_word_eqI) (auto simp add: bit_simps dest: bit_imp_le_length)

lemma u16_hi:
  "ucast (drop_bit 8 (push_bit 8 (ucast (b1::byte)) OR (ucast (b0::byte) AND 0xFF) :: uint16)) = b1"
  unfolding mask8_u16
  by (rule bit_word_eqI) (auto simp add: bit_simps dest: bit_imp_le_length)

lemma u16_eq_4D4D:
  "((push_bit 8 (ucast (b1::byte)) OR (ucast (b0::byte) AND 0xFF) :: uint16) = 0x4D4D)
     = (b0 = 0x4D \<and> b1 = 0x4D)"
proof
  assume h: "(push_bit 8 (ucast b1) OR (ucast b0 AND 0xFF) :: uint16) = 0x4D4D"
  have "b0 = ucast (0x4D4D :: uint16)" using u16_lo [of b1 b0] h by simp
  moreover have "b1 = ucast (drop_bit 8 (0x4D4D :: uint16))" using u16_hi [of b1 b0] h by simp
  ultimately show "b0 = 0x4D \<and> b1 = 0x4D" by simp
next
  assume "b0 = 0x4D \<and> b1 = 0x4D"
  then show "(push_bit 8 (ucast b1) OR (ucast b0 AND 0xFF) :: uint16) = 0x4D4D" by simp
qed

lemma length2_conv: "length bs = 2 \<Longrightarrow> bs = [bs ! 0, bs ! 1]"
  by (cases bs; cases "tl bs") auto

lemma bytesToUShort_len2:
  assumes "length bs = 2"
  shows "bytesToUShort h b bs =
           Some (if b \<and> h then push_bit 8 (ucast (bs ! 0)) OR (ucast (bs ! 1) AND 0xFF)
                 else push_bit 8 (ucast (bs ! 1)) OR (ucast (bs ! 0) AND 0xFF))"
proof -
  obtain b0 b1 where "bs = [b0, b1]" using length2_conv [OF assms] by blast
  then show ?thesis by simp
qed

lemma bytesToUInt_len4:
  assumes "length bs = 4"
  shows "\<exists>v. bytesToUInt h b bs = Some v"
  using assms by (simp add: bytesToUInt_def bytesToUShort_len2)

lemma psv_hi: "unat (ucast (drop_bit 16 (v::uint32)) :: uint16) = unat v div 65536"
proof -
  have "unat v < 2 ^ 32" using unsigned_less [of v, where 'a=nat] by simp
  then have "unat v div 65536 < 65536" by simp
  then show ?thesis
    by (simp add: unsigned_ucast_eq take_bit_eq_mod drop_bit_eq_div unat_div)
qed

lemma psv_lo: "unat (ucast ((v::uint32) AND 0xFFFF) :: uint16) = unat v mod 65536"
  unfolding mask16_u32
  by (simp add: unsigned_ucast_eq take_bit_eq_mod unat_mod flip: take_bit_eq_mask)

lemma processShortValue_unat:
  "unat (processShortValue be v) = (if be then unat v div 65536 else unat v mod 65536)"
  unfolding processShortValue_def Let_def
  using psv_hi psv_lo by simp

subsection \<open>Reading fields\<close>

lemma readField_length: "readField off n f = (bytes, err) \<Longrightarrow> length bytes = unat n"
  by (auto simp add: readField_def ReadAt_def Let_def split: if_splits)

lemma readField_ok:
  "0 \<le> off \<Longrightarrow> nat off + unat n \<le> length (contents f) \<Longrightarrow>
   readField off n f = (take (unat n) (drop (nat off) (contents f)), None)"
  by (simp add: readField_def ReadAt_def Let_def)

lemma readField_err:
  "readField off n f = (bytes, None) \<Longrightarrow> unat n \<noteq> 0 \<Longrightarrow>
   0 \<le> off \<and> nat off + unat n \<le> length (contents f)"
  by (auto simp add: readField_def ReadAt_def Let_def split: if_splits)

lemma readField_fail:
  "\<not> (0 \<le> off \<and> nat off + unat n \<le> length (contents f)) \<Longrightarrow> unat n \<noteq> 0 \<Longrightarrow>
   \<exists>bytes e. readField off n f = (bytes, Some e)"
  by (cases "readField off n f"; cases "snd (readField off n f)") (auto dest: readField_err)

lemma take2_drop:
  "off + 2 \<le> length xs \<Longrightarrow> take 2 (drop off xs) = [xs ! off, xs ! (off + 1)]"
  by (simp add: take_Suc_conv_app_nth numeral_2_eq_2)

lemma readField_0_2:
  "readField 0 2 f = (bytes, None) \<Longrightarrow>
   2 \<le> length (contents f) \<and> bytes = [contents f ! 0, contents f ! 1]"
  using readField_err [of 0 2 f bytes] readField_ok [of 0 2 f] take2_drop [of 0 "contents f"]
  by auto

lemma readField_0_2_short:
  "readField 0 2 f = (bytes, Some e) \<Longrightarrow> \<not> 2 \<le> length (contents f)"
  using readField_ok [of 0 2 f] by auto

subsection \<open>bytesToUShort\<close>

lemma toUShort_spec_file_order:
  "toUShort_spec h be b0 b1 =
     (if be then push_bit 8 (ucast b0) OR ucast b1 else push_bit 8 (ucast b1) OR ucast b0)"
proof -
  have s: "byteSwap16 (push_bit 8 (ucast x) OR ucast y) = push_bit 8 (ucast y) OR ucast x"
    for x y :: byte
    unfolding byteSwap16_def
    by (rule bit_word_eqI) (auto simp add: bit_simps dest: bit_imp_le_length)
  show ?thesis
    by (cases h; cases be) (simp_all add: toUShort_spec_def verbatim16_def s)
qed

lemma ucast_and_FF: "(ucast (b::byte) AND 0xFF :: uint16) = ucast b"
  unfolding mask8_u16
  by (rule bit_word_eqI) (auto simp add: bit_simps dest: bit_imp_le_length)

text \<open>
  On a little-endian host the code follows the rule for both file orders, and so it does
  on a big-endian host for a little-endian file; on a big-endian host it reads every file
  as little-endian.
\<close>

lemma bytesToUShort_little_endian_host:
  "bytesToUShort True be [b0, b1] = Some (toUShort_spec True be b0 b1)"
  by (simp add: toUShort_spec_file_order ucast_and_FF)

lemma bytesToUShort_big_endian_host:
  "bytesToUShort False be [b0, b1] = Some (toUShort_spec False False b0 b1)"
  by (simp add: toUShort_spec_file_order ucast_and_FF)

lemma bytesToUShort_examples:
  "bytesToUShort True False [0xBB, 0xAA] = Some 0xAABB"
  "bytesToUShort True True [0xBB, 0xAA] = Some 0xBBAA"
  by simp_all

text \<open>
  C1. The claim: for every two bytes and each of the four combinations of host and file
  byte order, \<open>bytesToUShort\<close> returns the byte-swapped value exactly when the two
  orders differ and the bytes in the file's order otherwise. The code swaps only for a
  little-endian host and a big-endian file: on a big-endian host with a big-endian file
  the bytes \<open>{0xBB, 0xAA}\<close> give \<open>0xAABB\<close>, the little-endian reading, where the
  rule (the orders agree, so the bytes are taken in the file's big-endian order) gives
  \<open>0xBBAA\<close>.
\<close>

theorem bytesToUShort_big_endian_host_big_endian_file:
  "bytesToUShort False True [0xBB, 0xAA] = Some 0xAABB
   \<and> toUShort_spec False True 0xBB 0xAA = 0xBBAA"
  by (simp add: toUShort_spec_file_order)

subsection \<open>processHeader\<close>

lemma NefParser_processHeader_isBigEndian:
  "\<exists>h err. NefParser_processHeader host f = Some (h, err) \<and>
     isBigEndian h = (2 \<le> length (contents f) \<and> contents f ! 0 = 0x4D \<and> contents f ! 1 = 0x4D)"
proof -
  define be where "be = (contents f ! 0 = 0x4D \<and> contents f ! 1 = 0x4D)"
  obtain bytes0 err0 where r0: "readField 0 2 f = (bytes0, err0)" by (cases "readField 0 2 f")
  obtain bytes2 err2 where r2: "readField 2 2 f = (bytes2, err2)" by (cases "readField 2 2 f")
  obtain bytes4 err4 where r4: "readField 4 4 f = (bytes4, err4)" by (cases "readField 4 4 f")
  have l2: "length bytes2 = 2" using readField_length [OF r2] by simp
  have l4: "length bytes4 = 4" using readField_length [OF r4] by simp
  obtain v where v: "bytesToUInt host be bytes4 = Some v"
    using bytesToUInt_len4 [OF l4] by blast
  show ?thesis
  proof (cases err0)
    case (Some e)
    with r0 readField_0_2_short show ?thesis
      by (auto simp add: NefParser_processHeader_def)
  next
    case None
    with r0 readField_0_2
    have b: "2 \<le> length (contents f)" "bytes0 = [contents f ! 0, contents f ! 1]"
      by auto
    show ?thesis
      using r0 None b r2 r4 l2 v
      by (cases err2; cases err4)
         (simp_all add: NefParser_processHeader_def Let_def bytesToUShort_len2 u16_eq_4D4D be_def)
  qed
qed

lemma Cr2Parser_processHeader_isBigEndian:
  "\<exists>h err. Cr2Parser_processHeader host f = Some (h, err) \<and>
     isBigEndian h = (2 \<le> length (contents f) \<and> contents f ! 0 = 0x4D \<and> contents f ! 1 = 0x4D)"
proof -
  define be where "be = (contents f ! 0 = 0x4D \<and> contents f ! 1 = 0x4D)"
  obtain bytes0 err0 where r0: "readField 0 2 f = (bytes0, err0)" by (cases "readField 0 2 f")
  obtain bytes2 err2 where r2: "readField 2 2 f = (bytes2, err2)" by (cases "readField 2 2 f")
  obtain bytes4 err4 where r4: "readField 4 4 f = (bytes4, err4)" by (cases "readField 4 4 f")
  obtain bytes8 err8 where r8: "readField 8 2 f = (bytes8, err8)" by (cases "readField 8 2 f")
  obtain bytes10 err10 where r10: "readField 10 1 f = (bytes10, err10)"
    by (cases "readField 10 1 f")
  obtain bytes11 err11 where r11: "readField 11 1 f = (bytes11, err11)"
    by (cases "readField 11 1 f")
  have l2: "length bytes2 = 2" using readField_length [OF r2] by simp
  have l4: "length bytes4 = 4" using readField_length [OF r4] by simp
  have l10: "length bytes10 = 1" using readField_length [OF r10] by simp
  have l11: "length bytes11 = 1" using readField_length [OF r11] by simp
  obtain v where v: "bytesToUInt host be bytes4 = Some v"
    using bytesToUInt_len4 [OF l4] by blast
  show ?thesis
  proof (cases err0)
    case (Some e)
    with r0 readField_0_2_short show ?thesis
      by (auto simp add: Cr2Parser_processHeader_def)
  next
    case None
    with r0 readField_0_2
    have b: "2 \<le> length (contents f)" "bytes0 = [contents f ! 0, contents f ! 1]"
      by auto
    show ?thesis
      using r0 None b r2 r4 r8 r10 r11 l2 l10 l11 v
      by (cases err2; cases err4; cases err8; cases err10; cases err11)
         (simp_all add: Cr2Parser_processHeader_def Let_def bytesToUShort_len2 u16_eq_4D4D
            be_def index_at_def)
  qed
qed

text \<open>
  C8. For both header parsers, on either host, \<open>processHeader\<close> returns a header
  whose \<open>isBigEndian\<close> flag is true exactly when two bytes could be read at offset 0
  and they are the marker \<open>0x4D4D\<close>; for every other marker, and when the read is
  short, the flag is false.
\<close>

theorem processHeader_isBigEndian_iff_marker:
  "(\<exists>h err. NefParser_processHeader host f = Some (h, err) \<and>
      isBigEndian h
        = (2 \<le> length (contents f) \<and> contents f ! 0 = 0x4D \<and> contents f ! 1 = 0x4D))
   \<and> (\<exists>h err. Cr2Parser_processHeader host f = Some (h, err) \<and>
      isBigEndian h
        = (2 \<le> length (contents f) \<and> contents f ! 0 = 0x4D \<and> contents f ! 1 = 0x4D))"
  using NefParser_processHeader_isBigEndian Cr2Parser_processHeader_isBigEndian by blast

lemma NefParser_processHeader_ok:
  assumes "8 \<le> length (contents f)"
  shows "\<exists>h. NefParser_processHeader host f = Some (h, None)
           \<and> bytesToUShort host (isBigEndian h) (take 2 (drop 2 (contents f)))
               = Some (tiffMagicValue h)
           \<and> map_option uint (bytesToUInt host (isBigEndian h) (take 4 (drop 4 (contents f))))
               = Some (tiffOffset h)"
proof -
  define be where "be = (contents f ! 0 = 0x4D \<and> contents f ! 1 = 0x4D)"
  have r0: "readField 0 2 f = ([contents f ! 0, contents f ! 1], None)"
    using readField_ok [of 0 2 f] take2_drop [of 0 "contents f"] assms by simp
  have r2: "readField 2 2 f = (take 2 (drop 2 (contents f)), None)"
    using readField_ok [of 2 2 f] assms by simp
  have r4: "readField 4 4 f = (take 4 (drop 4 (contents f)), None)"
    using readField_ok [of 4 4 f] assms by simp
  have l2: "length (take 2 (drop 2 (contents f))) = 2" using assms by simp
  have l4: "length (take 4 (drop 4 (contents f))) = 4" using assms by simp
  obtain v where v: "bytesToUInt host be (take 4 (drop 4 (contents f))) = Some v"
    using bytesToUInt_len4 [OF l4] by blast
  show ?thesis
    using r0 r2 r4 v
    by (simp add: NefParser_processHeader_def Let_def bytesToUShort_len2 [OF l2]
          u16_eq_4D4D be_def)
qed

lemma Cr2Parser_processHeader_ok:
  assumes "12 \<le> length (contents f)"
  shows "\<exists>h. Cr2Parser_processHeader host f = Some (h, None)
           \<and> bytesToUShort host (isBigEndian h) (take 2 (drop 2 (contents f)))
               = Some (tiffMagicValue h)
           \<and> map_option uint (bytesToUInt host (isBigEndian h) (take 4 (drop 4 (contents f))))
               = Some (tiffOffset h)
           \<and> cr2MagicValue h = bytesToASCIIString (take 2 (drop 8 (contents f)))
           \<and> cr2MajorValue h = contents f ! 10
           \<and> cr2MinorValue h = contents f ! 11"
proof -
  define be where "be = (contents f ! 0 = 0x4D \<and> contents f ! 1 = 0x4D)"
  have r0: "readField 0 2 f = ([contents f ! 0, contents f ! 1], None)"
    using readField_ok [of 0 2 f] take2_drop [of 0 "contents f"] assms by simp
  have r2: "readField 2 2 f = (take 2 (drop 2 (contents f)), None)"
    using readField_ok [of 2 2 f] assms by simp
  have r4: "readField 4 4 f = (take 4 (drop 4 (contents f)), None)"
    using readField_ok [of 4 4 f] assms by simp
  have r8: "readField 8 2 f = (take 2 (drop 8 (contents f)), None)"
    using readField_ok [of 8 2 f] assms by simp
  have r10: "readField 10 1 f = ([contents f ! 10], None)"
    using readField_ok [of 10 1 f] assms by (simp add: take_Suc_conv_app_nth)
  have r11: "readField 11 1 f = ([contents f ! 11], None)"
    using readField_ok [of 11 1 f] assms by (simp add: take_Suc_conv_app_nth)
  have l2: "length (take 2 (drop 2 (contents f))) = 2" using assms by simp
  have l4: "length (take 4 (drop 4 (contents f))) = 4" using assms by simp
  obtain v where v: "bytesToUInt host be (take 4 (drop 4 (contents f))) = Some v"
    using bytesToUInt_len4 [OF l4] by blast
  show ?thesis
    using r0 r2 r4 r8 r10 r11 v
    by (simp add: Cr2Parser_processHeader_def Let_def bytesToUShort_len2 [OF l2]
          u16_eq_4D4D be_def index_at_def)
qed

text \<open>
  C9. \<open>processHeader\<close> does not fail because of a value it decoded: on every file
  long enough for the header's reads (8 bytes for NEF, 12 for CR2) it returns the header
  with no error, \<open>tiffMagicValue\<close> being the two bytes at offset 2 as decoded,
  \<open>tiffOffset\<close> the four bytes at offset 4, and the CR2 magic and version bytes as
  they stand in the file, whatever these values are.
\<close>

theorem processHeader_accepts_every_value:
  "(8 \<le> length (contents f) \<longrightarrow>
      (\<exists>h. NefParser_processHeader host f = Some (h, None)
         \<and> bytesToUShort host (isBigEndian h) (take 2 (drop 2 (contents f)))
             = Some (tiffMagicValue h)
         \<and> map_option uint (bytesToUInt host (isBigEndian h) (take 4 (drop 4 (contents f))))
             = Some (tiffOffset h)))
   \<and> (12 \<le> length (contents f) \<longrightarrow>
      (\<exists>h. Cr2Parser_processHeader host f = Some (h, None)
         \<and> bytesToUShort host (isBigEndian h) (take 2 (drop 2 (contents f)))
             = Some (tiffMagicValue h)
         \<and> map_option uint (bytesToUInt host (isBigEndian h) (take 4 (drop 4 (contents f))))
             = Some (tiffOffset h)
         \<and> cr2MagicValue h = bytesToASCIIString (take 2 (drop 8 (contents f)))
         \<and> cr2MajorValue h = contents f ! 10
         \<and> cr2MinorValue h = contents f ! 11))"
  using NefParser_processHeader_ok Cr2Parser_processHeader_ok by blast

theorem processHeader_accepts_every_value_witness:
  "8 \<le> length (contents sample_nef_header)
   \<and> 12 \<le> length (contents sample_cr2_header)
   \<and> (\<exists>h. NefParser_processHeader True sample_nef_header = Some (h, None)
         \<and> tiffMagicValue h = 43 \<and> tiffOffset h = 8)
   \<and> (\<exists>h. Cr2Parser_processHeader True sample_cr2_header = Some (h, None)
         \<and> tiffMagicValue h = 0x1234 \<and> tiffOffset h = 0xFFFFFFF0
         \<and> cr2MagicValue h = ''XY'' \<and> cr2MajorValue h = 7 \<and> cr2MinorValue h = 9)"
proof -
  have n: "8 \<le> length (contents sample_nef_header)"
    by (simp add: sample_nef_header_def)
  have c: "12 \<le> length (contents sample_cr2_header)"
    by (simp add: sample_cr2_header_def)
  have en: "NefParser_processHeader True sample_nef_header
              = Some (\<lparr>isBigEndian = False, tiffMagicValue = 43, tiffOffset = 8\<rparr>, None)"
    by code_simp
  have ec: "Cr2Parser_processHeader True sample_cr2_header
              = Some (\<lparr>isBigEndian = True, tiffMagicValue = 0x1234, tiffOffset = 0xFFFFFFF0,
                       cr2MagicValue = ''XY'', cr2MajorValue = 7, cr2MinorValue = 9\<rparr>, None)"
    by code_simp
  from processHeader_accepts_every_value [of sample_nef_header True] n
  have "\<exists>h. NefParser_processHeader True sample_nef_header = Some (h, None)" by blast
  moreover from processHeader_accepts_every_value [of sample_cr2_header True] c
  have "\<exists>h. Cr2Parser_processHeader True sample_cr2_header = Some (h, None)" by blast
  ultimately show ?thesis using n c en ec by simp
qed

subsection \<open>The orientation tag\<close>

lemma NefParser_subIfd_loop_orientation:
  "NefParser_subIfd_loop hl be f es j = Some j' \<Longrightarrow> orientation j' = orientation j"
proof (induction es arbitrary: j)
  case Nil
  then show ?case by simp
next
  case (Cons e es)
  from Cons.prems show ?case
    by (auto simp add: bind_eq_Some_conv Let_def dest!: Cons.IH split: if_splits)
qed

lemma NefParser_ifd_loop_orientation:
  "\<forall>e\<in>set es. tag e \<noteq> 0x0112 \<Longrightarrow>
   NefParser_ifd_loop hl be f es j c err = Some (j', c', err') \<Longrightarrow>
   orientation j' = orientation j"
proof (induction es arbitrary: j c)
  case Nil
  then show ?case by simp
next
  case (Cons e es)
  have IH: "\<And>j c. NefParser_ifd_loop hl be f es j c err = Some (j', c', err')
                \<Longrightarrow> orientation j' = orientation j"
    using Cons.IH Cons.prems(1) by simp
  from Cons.prems show ?case
    by (auto simp add: bind_eq_Some_conv Let_def
             dest!: IH NefParser_subIfd_loop_orientation
             split: if_splits prod.splits)
qed

lemma Cr2Parser_ifd_loop_orientation:
  "\<forall>e\<in>set es. tag e \<noteq> 0x0112 \<Longrightarrow>
   Cr2Parser_ifd_loop hl be f es j c err = Some (j', c', err') \<Longrightarrow>
   orientation j' = orientation j"
proof (induction es arbitrary: j c err)
  case Nil
  then show ?case by simp
next
  case (Cons e es)
  have IH: "\<And>j c err. Cr2Parser_ifd_loop hl be f es j c err = Some (j', c', err')
                \<Longrightarrow> orientation j' = orientation j"
    using Cons.IH Cons.prems(1) by simp
  from Cons.prems show ?case
    by (auto simp add: bind_eq_Some_conv Let_def dest!: IH split: if_splits prod.splits)
qed

text \<open>
  C5. In both tag interpreters an entry with tag \<open>0x0112\<close> sets the orientation to
  \<open>270 * pi / 180\<close> exactly when the short taken from its value field is 8, and to 0
  for every other value: whenever the loop over the root directory returns, with that
  entry followed by entries \<open>es\<close> none of which is another orientation entry, this is
  the orientation of the result. The short is the value field divided by \<open>2^16\<close> (its
  high 16 bits) for a big-endian file and the value field modulo \<open>2^16\<close> (its low 16
  bits) otherwise.
\<close>

theorem orientation_tag:
  assumes "tag entry = 0x0112" and "\<forall>e\<in>set es. tag e \<noteq> 0x0112"
  shows "(NefParser_ifd_loop hl be f (entry # es) j c err = Some (j1, c1, err1) \<longrightarrow>
            orientation j1
              = (if processShortValue be (valueOffset entry) = 8 then 270 * pi / 180 else 0)
          \<and> (orientation j1 = 270 * pi / 180)
              = (processShortValue be (valueOffset entry) = 8))
       \<and> (Cr2Parser_ifd_loop hl be f (entry # es) j c err = Some (j2, c2, err2) \<longrightarrow>
            orientation j2
              = (if processShortValue be (valueOffset entry) = 8 then 270 * pi / 180 else 0)
          \<and> (orientation j2 = 270 * pi / 180)
              = (processShortValue be (valueOffset entry) = 8))
       \<and> unat (processShortValue be (valueOffset entry))
           = (if be then unat (valueOffset entry) div 2 ^ 16
              else unat (valueOffset entry) mod 2 ^ 16)"
proof (intro conjI impI)
  assume "NefParser_ifd_loop hl be f (entry # es) j c err = Some (j1, c1, err1)"
  with assms
  show o1: "orientation j1
              = (if processShortValue be (valueOffset entry) = 8 then 270 * pi / 180 else 0)"
    by (auto simp add: Let_def rotationRads_def dest!: NefParser_ifd_loop_orientation)
  then show "(orientation j1 = 270 * pi / 180) = (processShortValue be (valueOffset entry) = 8)"
    by simp
next
  assume "Cr2Parser_ifd_loop hl be f (entry # es) j c err = Some (j2, c2, err2)"
  with assms
  show o2: "orientation j2
              = (if processShortValue be (valueOffset entry) = 8 then 270 * pi / 180 else 0)"
    by (auto simp add: Let_def rotationRads_def dest!: Cr2Parser_ifd_loop_orientation)
  then show "(orientation j2 = 270 * pi / 180) = (processShortValue be (valueOffset entry) = 8)"
    by simp
next
  show "unat (processShortValue be (valueOffset entry))
          = (if be then unat (valueOffset entry) div 2 ^ 16
             else unat (valueOffset entry) mod 2 ^ 16)"
    using processShortValue_unat by simp
qed

theorem orientation_tag_witness:
  "tag sample_orientation_entry = 0x0112
   \<and> (\<exists>j c e. NefParser_ifd_loop True False sample_rational
                  [sample_orientation_entry, sample_length_entry] zeroJpegInfo zeroTime None
                = Some (j, c, e)
              \<and> orientation j = 270 * pi / 180)
   \<and> (\<exists>j c e. Cr2Parser_ifd_loop True False sample_rational
                  [sample_orientation_entry, sample_length_entry] zeroJpegInfo zeroTime None
                = Some (j, c, e)
              \<and> orientation j = 270 * pi / 180 \<and> length' j = 100)"
proof -
  have t: "tag sample_orientation_entry = 0x0112"
    by (simp add: sample_orientation_entry_def)
  have n: "\<forall>e\<in>set [sample_length_entry]. tag e \<noteq> 0x0112"
    by (simp add: sample_length_entry_def)
  have v: "processShortValue False (valueOffset sample_orientation_entry) = 8"
    by (simp add: sample_orientation_entry_def processShortValue_def)
  have e1: "NefParser_ifd_loop True False sample_rational
              [sample_orientation_entry, sample_length_entry] zeroJpegInfo zeroTime None
            = Some (zeroJpegInfo\<lparr>orientation := rotationRads\<rparr>, zeroTime, None)"
    by code_simp
  have e2: "Cr2Parser_ifd_loop True False sample_rational
              [sample_orientation_entry, sample_length_entry] zeroJpegInfo zeroTime None
            = Some (zeroJpegInfo\<lparr>orientation := rotationRads, length' := 100\<rparr>, zeroTime, None)"
    by code_simp
  note T = orientation_tag [OF t n, where hl = True and be = False and f = sample_rational
      and j = zeroJpegInfo and c = zeroTime and err = None
      and ?j1.0 = "zeroJpegInfo\<lparr>orientation := rotationRads\<rparr>" and ?c1.0 = zeroTime
      and ?err1.0 = None
      and ?j2.0 = "zeroJpegInfo\<lparr>orientation := rotationRads, length' := 100\<rparr>"
      and ?c2.0 = zeroTime and ?err2.0 = None]
  from T e1 have "(orientation (zeroJpegInfo\<lparr>orientation := rotationRads\<rparr>) = 270 * pi / 180)
      = (processShortValue False (valueOffset sample_orientation_entry) = 8)"
    by blast
  with v have o1: "orientation (zeroJpegInfo\<lparr>orientation := rotationRads\<rparr>) = 270 * pi / 180"
    by (simp only: simp_thms)
  from T e2
  have "(orientation (zeroJpegInfo\<lparr>orientation := rotationRads, length' := 100\<rparr>)
           = 270 * pi / 180)
      = (processShortValue False (valueOffset sample_orientation_entry) = 8)"
    by blast
  with v
  have o2: "orientation (zeroJpegInfo\<lparr>orientation := rotationRads, length' := 100\<rparr>)
              = 270 * pi / 180"
    by (simp only: simp_thms)
  have l: "length' (zeroJpegInfo\<lparr>orientation := rotationRads, length' := 100\<rparr>) = 100"
    by simp
  from t e1 e2 o1 o2 l show ?thesis by blast
qed

subsection \<open>processRationalEntry\<close>

text \<open>
  C6. \<open>processRationalEntry\<close> decodes the numerator from the four bytes read at the
  value offset and the denominator from the four bytes read right after them, and the
  ratio it returns is the truncating quotient of the two unsigned integers as a
  floating-point number when the denominator is positive, and 0 when it is zero; the
  error it returns is that of the second read. When
  the file holds eight bytes at the offset, the two reads are those eight bytes and
  succeed.
\<close>

theorem processRationalEntry_ratio:
  "(\<exists>num den.
      processRationalEntry hl be v f
        = Some (num, den, (if 0 < unat den then real (unat num div unat den) else 0),
                snd (readField (uint v + 4) 4 f))
      \<and> bytesToUInt hl be (fst (readField (uint v) 4 f)) = Some num
      \<and> bytesToUInt hl be (fst (readField (uint v + 4) 4 f)) = Some den)
   \<and> (unat v + 8 \<le> length (contents f) \<longrightarrow>
        readField (uint v) 4 f = (take 4 (drop (unat v) (contents f)), None)
      \<and> readField (uint v + 4) 4 f = (take 4 (drop (unat v + 4) (contents f)), None))"
proof (intro conjI impI)
  obtain b1 e1 where r1: "readField (uint v) 4 f = (b1, e1)"
    by (cases "readField (uint v) 4 f")
  obtain b2 e2 where r2: "readField (uint v + 4) 4 f = (b2, e2)"
    by (cases "readField (uint v + 4) 4 f")
  have "length b1 = 4" using readField_length [OF r1] by simp
  then obtain num where num: "bytesToUInt hl be b1 = Some num"
    using bytesToUInt_len4 by blast
  have "length b2 = 4" using readField_length [OF r2] by simp
  then obtain den where den: "bytesToUInt hl be b2 = Some den"
    using bytesToUInt_len4 by blast
  have "processRationalEntry hl be v f
          = Some (num, den, (if 0 < unat den then real (unat num div unat den) else 0), e2)"
    using r1 r2 num den
    by (simp add: processRationalEntry_def unat_div word_less_nat_alt)
  then show "\<exists>num den.
      processRationalEntry hl be v f
        = Some (num, den, (if 0 < unat den then real (unat num div unat den) else 0),
                snd (readField (uint v + 4) 4 f))
      \<and> bytesToUInt hl be (fst (readField (uint v) 4 f)) = Some num
      \<and> bytesToUInt hl be (fst (readField (uint v + 4) 4 f)) = Some den"
    using r1 r2 num den by auto
next
  assume a: "unat v + 8 \<le> length (contents f)"
  show "readField (uint v) 4 f = (take 4 (drop (unat v) (contents f)), None)"
    using readField_ok [of "uint v" 4 f] a by simp
  have "nat (uint v + 4) = unat v + 4" by (simp add: nat_add_distrib)
  then show "readField (uint v + 4) 4 f = (take 4 (drop (unat v + 4) (contents f)), None)"
    using readField_ok [of "uint v + 4" 4 f] a by simp
qed

theorem processRationalEntry_ratio_witness:
  "unat (0 :: uint32) + 8 \<le> length (contents sample_rational)
   \<and> processRationalEntry True False 0 sample_rational = Some (72, 32, 2, None)"
proof -
  have l: "unat (0 :: uint32) + 8 \<le> length (contents sample_rational)"
    by (simp add: sample_rational_def)
  have n: "bytesToUInt True False (take 4 (drop (unat (0 :: uint32)) (contents sample_rational)))
             = Some 72"
    by (simp add: sample_rational_def bytesToUInt_def)
  have d: "bytesToUInt True False (take 4 (drop (unat (0 :: uint32) + 4) (contents sample_rational)))
             = Some 32"
    by (simp add: sample_rational_def bytesToUInt_def)
  from processRationalEntry_ratio [of True False 0 sample_rational] l n d
  show ?thesis by auto
qed

subsection \<open>parseDateTime: the year is indexed without a length check\<close>

lemma toRfc822Date_valid:
  "m \<in> set monthTokens \<Longrightarrow> \<exists>name. toRfc822Date [y, m, d] = Some (name, None)"
  by (auto simp add: monthTokens_def toRfc822Date_def index_at_def)

lemma toRfc822Date_invalid:
  "m \<notin> set monthTokens \<Longrightarrow> toRfc822Date [y, m, d] = Some ([], Some (InvalidMonth m))"
  by (simp add: monthTokens_def toRfc822Date_def index_at_def)

text \<open>
  C10. \<open>parseDateTime\<close> is not total: on every input that splits on the space into
  two tokens, whose date token splits on \<open>:\<close> into three sub-tokens and whose time
  token into three, with a month token in the table and a year token of fewer than four
  characters, the index expressions \<open>dateTokens[0][2]\<close> and \<open>dateTokens[0][3]\<close>
  are out of range and the function panics; it returns no error. The input
  \<open>"201:08:10 12:11:07"\<close> is one.
\<close>

theorem parseDateTime_short_year_panics:
  assumes "Split s CHR '' '' = [dateToken, timeToken]"
    and "Split dateToken CHR '':'' = [y, m, d]"
    and "length (Split timeToken CHR '':'') = 3"
    and "m \<in> set monthTokens"
    and "length y < 4"
  shows "parseDateTime s = None"
proof -
  obtain name where n: "toRfc822Date [y, m, d] = Some (name, None)"
    using toRfc822Date_valid [OF assms(4)] by blast
  have "index_at y 2 = None \<or> index_at y 3 = None"
    using assms(5) by (simp add: index_at_def)
  then show ?thesis
    using assms(1-3) n by (auto simp add: parseDateTime_def Let_def)
qed

theorem parseDateTime_short_year_panics_witness:
  "Split ''201:08:10 12:11:07'' CHR '' '' = [''201:08:10'', ''12:11:07'']
   \<and> Split ''201:08:10'' CHR '':'' = [''201'', ''08'', ''10'']
   \<and> length (Split ''12:11:07'' CHR '':'') = 3
   \<and> ''08'' \<in> set monthTokens
   \<and> length ''201'' < 4
   \<and> parseDateTime ''201:08:10 12:11:07'' = None"
proof -
  have a: "Split ''201:08:10 12:11:07'' CHR '' '' = [''201:08:10'', ''12:11:07'']" by simp
  have b: "Split ''201:08:10'' CHR '':'' = [''201'', ''08'', ''10'']" by simp
  have c: "length (Split ''12:11:07'' CHR '':'') = 3" by simp
  have d: "''08'' \<in> set monthTokens" by (simp add: monthTokens_def)
  have e: "length ''201'' < 4" by simp
  from parseDateTime_short_year_panics [OF a b c d e] a b c d e show ?thesis by blast
qed

subsection \<open>ProcessFile\<close>

text \<open>
  The guard of \<open>NefParser.ProcessFile\<close>: when the tag interpretation returns without
  an error and with a length that is not positive, the parse fails with the
  invalid-length error and the codec is not called.
\<close>

lemma NefParser_ProcessFile_invalid_length:
  assumes "fs (File info) = Some bytes"
    and "NefParser_processHeader host \<lparr>fname = File info, contents = bytes\<rparr> = Some (h, e)"
    and "NefParser_processIfds host \<lparr>fname = File info, contents = bytes\<rparr> h
           = Some (j, cd, None)"
    and "length' j \<le> 0"
  shows "NefParser_ProcessFile host fs cdc info
           = Some (zeroRawFile, Some (InvalidJpegLength (length' j)), [])"
  using assms by (simp add: NefParser_ProcessFile_def)

text \<open>
  C2. The claim: \<open>ProcessFile\<close> of either parser returns a populated \<open>RawFile\<close> or
  a non-nil error, and an error of the header or IFD decoding reaches the caller. The
  code returns a \<open>nil\<close> error with the zero \<open>RawFile\<close> in these cases: the CR2
  parser on an empty file, where the header read and the read of the root directory's
  entry count both fail; and the NEF parser on a well-formed file when the codec fails
  to write the JPEG.
\<close>

theorem ProcessFile_nil_error_with_empty_result:
  "Cr2Parser_processHeader True \<lparr>fname = ''a.raw'', contents = []\<rparr>
     = Some (\<lparr>isBigEndian = False, tiffMagicValue = 0, tiffOffset = 0,
              cr2MagicValue = [], cr2MajorValue = 0, cr2MinorValue = 0\<rparr>,
             Some (ShortRead 0 2))
   \<and> Cr2Parser_processIfds True \<lparr>fname = ''a.raw'', contents = []\<rparr>
        \<lparr>isBigEndian = False, tiffMagicValue = 0, tiffOffset = 0,
         cr2MagicValue = [], cr2MajorValue = 0, cr2MinorValue = 0\<rparr>
     = Some (zeroJpegInfo, zeroTime, Some (ShortRead 0 2))
   \<and> Cr2Parser_ProcessFile True (sample_fs []) accepting_codec sample_info
     = Some (zeroRawFile, None, [])
   \<and> NefParser_ProcessFile True (sample_fs sample_nef) failing_codec sample_info
     = Some (zeroRawFile, None, [([0xFF, 0xD8], 50, ''out/a.raw_extracted.jpg'')])"
  by code_simp

text \<open>
  C3. The claim: whenever the tag interpretation yields a JPEG length that is not
  positive, \<open>ProcessFile\<close> of either parser fails with the invalid-length error and
  the codec is never called. \<open>Cr2Parser.ProcessFile\<close> has no such test: on a CR2 file
  with a well-formed header and a root directory without entries the interpretation
  returns the length 0 and no error, the codec is called with an empty buffer, and the
  parse returns a \<open>nil\<close> error, with a populated result when the codec accepts the
  empty buffer and with the zero result when it refuses it.
\<close>

theorem Cr2Parser_ProcessFile_zero_length_calls_codec:
  "Cr2Parser_processIfds True \<lparr>fname = ''a.raw'', contents = sample_cr2_no_jpeg\<rparr>
        \<lparr>isBigEndian = False, tiffMagicValue = 42, tiffOffset = 12,
         cr2MagicValue = ''CR'', cr2MajorValue = 2, cr2MinorValue = 0\<rparr>
     = Some (zeroJpegInfo, zeroTime, None)
   \<and> length' zeroJpegInfo = 0
   \<and> Cr2Parser_ProcessFile True (sample_fs sample_cr2_no_jpeg) failing_codec sample_info
     = Some (zeroRawFile, None, [([], 50, ''out/a.raw_extracted.jpg'')])
   \<and> Cr2Parser_ProcessFile True (sample_fs sample_cr2_no_jpeg) accepting_codec sample_info
     = Some (zeroRawFile\<lparr>FileName := ''a.raw'', JpegPath := ''out/a.raw_extracted.jpg''\<rparr>,
             None, [([], 50, ''out/a.raw_extracted.jpg'')])"
  by code_simp

subsection \<open>processIfd\<close>

lemma records_nth:
  "records k p cs = map (\<lambda>i. take 12 (drop (p + 12 * i) cs)) [0..<k]"
proof (induction k arbitrary: p)
  case 0
  then show ?case by simp
next
  case (Suc k)
  have "map (\<lambda>i. take 12 (drop (p + 12 * i) cs)) [0..<Suc k]
          = take 12 (drop p cs) # map (\<lambda>i. take 12 (drop (p + 12 * Suc i) cs)) [0..<k]"
    by (simp add: upt_conv_Cons map_Suc_upt [symmetric] del: upt_Suc)
  then show ?case using Suc.IH [of "p + 12"] by (simp add: algebra_simps)
qed

lemma processIfd_loop_step_ok:
  assumes "0 \<le> p" and "nat p + 12 \<le> length (contents f)"
  shows "\<exists>e. decodeEntry_spec hl be (take 12 (drop (nat p) (contents f))) = Some e
           \<and> processIfd_loop hl be f (Suc k) p l err
               = processIfd_loop hl be f k (p + 12) (l @ [e]) None"
proof -
  let ?cs = "contents f"
  have n2: "nat (p + 2) = nat p + 2" and n4: "nat (p + 4) = nat p + 4"
    and n8: "nat (p + 8) = nat p + 8"
    using assms(1) by simp_all
  have r1: "readField p 2 f = (take 2 (drop (nat p) ?cs), None)"
    using readField_ok [of p 2 f] assms by simp
  have r2: "readField (p + 2) 2 f = (take 2 (drop (nat p + 2) ?cs), None)"
    using readField_ok [of "p + 2" 2 f] assms n2 by simp
  have r3: "readField (p + 4) 4 f = (take 4 (drop (nat p + 4) ?cs), None)"
    using readField_ok [of "p + 4" 4 f] assms n4 by simp
  have r4: "readField (p + 8) 4 f = (take 4 (drop (nat p + 8) ?cs), None)"
    using readField_ok [of "p + 8" 4 f] assms n8 by simp
  have l1: "length (take 2 (drop (nat p) ?cs)) = 2" using assms by simp
  have l2: "length (take 2 (drop (nat p + 2) ?cs)) = 2" using assms by simp
  have l3: "length (take 4 (drop (nat p + 4) ?cs)) = 4" using assms by simp
  have l4: "length (take 4 (drop (nat p + 8) ?cs)) = 4" using assms by simp
  obtain t where t: "bytesToUShort hl be (take 2 (drop (nat p) ?cs)) = Some t"
    using bytesToUShort_len2 [OF l1] by blast
  obtain ty where ty: "bytesToUShort hl be (take 2 (drop (nat p + 2) ?cs)) = Some ty"
    using bytesToUShort_len2 [OF l2] by blast
  obtain c where c: "bytesToUInt hl be (take 4 (drop (nat p + 4) ?cs)) = Some c"
    using bytesToUInt_len4 [OF l3] by blast
  obtain v where v: "bytesToUInt hl be (take 4 (drop (nat p + 8) ?cs)) = Some v"
    using bytesToUInt_len4 [OF l4] by blast
  have d: "decodeEntry_spec hl be (take 12 (drop (nat p) ?cs))
             = Some \<lparr>tag = t, fieldType = ty, count = c, valueOffset = v\<rparr>"
    using t ty c v by (simp add: decodeEntry_spec_def drop_take add.commute)
  have "processIfd_loop hl be f (Suc k) p l err
          = processIfd_loop hl be f k (p + 12)
              (l @ [\<lparr>tag = t, fieldType = ty, count = c, valueOffset = v\<rparr>]) None"
    using r1 r2 r3 r4 t ty c v by simp
  with d show ?thesis by blast
qed

lemma processIfd_loop_step_fail:
  assumes "\<not> (0 \<le> p \<and> nat p + 12 \<le> length (contents f))"
  shows "\<exists>e. processIfd_loop hl be f (Suc k) p l err = Some (l, Some e)"
proof -
  obtain b1 e1 where r1: "readField p 2 f = (b1, e1)" by (cases "readField p 2 f")
  obtain b2 e2 where r2: "readField (p + 2) 2 f = (b2, e2)" by (cases "readField (p + 2) 2 f")
  obtain b3 e3 where r3: "readField (p + 4) 4 f = (b3, e3)" by (cases "readField (p + 4) 4 f")
  obtain b4 e4 where r4: "readField (p + 8) 4 f = (b4, e4)" by (cases "readField (p + 8) 4 f")
  have l1: "length b1 = 2" using readField_length [OF r1] by simp
  have l2: "length b2 = 2" using readField_length [OF r2] by simp
  have l3: "length b3 = 4" using readField_length [OF r3] by simp
  have l4: "length b4 = 4" using readField_length [OF r4] by simp
  obtain c where c: "bytesToUInt hl be b3 = Some c" using bytesToUInt_len4 [OF l3] by blast
  obtain v where v: "bytesToUInt hl be b4 = Some v" using bytesToUInt_len4 [OF l4] by blast
  have "\<not> (e1 = None \<and> e4 = None)"
  proof
    assume a: "e1 = None \<and> e4 = None"
    then have "0 \<le> p" using readField_err [of p 2 f b1] r1 by simp
    moreover have "nat (p + 8) + 4 \<le> length (contents f)"
      using readField_err [of "p + 8" 4 f b4] r4 a by simp
    ultimately show False using assms by simp
  qed
  then show ?thesis
    using r1 r2 r3 r4 c v
    by (cases e1; cases e2; cases e3; cases e4) (simp_all add: bytesToUShort_len2 l1 l2)
qed

lemma processIfd_loop_ok:
  "0 \<le> p \<Longrightarrow> nat p + 12 * k \<le> length (contents f) \<Longrightarrow>
   \<exists>es. those (map (decodeEntry_spec hl be) (records k (nat p) (contents f))) = Some es
        \<and> length es = k
        \<and> processIfd_loop hl be f k p l err = Some (l @ es, if k = 0 then err else None)"
proof (induction k arbitrary: p l err)
  case 0
  then show ?case by simp
next
  case (Suc k)
  from Suc.prems have b: "nat p + 12 \<le> length (contents f)" by simp
  obtain e where e: "decodeEntry_spec hl be (take 12 (drop (nat p) (contents f))) = Some e"
    and s: "processIfd_loop hl be f (Suc k) p l err
              = processIfd_loop hl be f k (p + 12) (l @ [e]) None"
    using processIfd_loop_step_ok [OF Suc.prems(1) b] by blast
  have n: "nat (p + 12) = nat p + 12" using Suc.prems(1) by simp
  obtain es where es: "those (map (decodeEntry_spec hl be) (records k (nat p + 12) (contents f)))
                         = Some es"
    and len: "length es = k"
    and r: "processIfd_loop hl be f k (p + 12) (l @ [e]) None
              = Some ((l @ [e]) @ es, if k = 0 then None else None)"
    using Suc.IH [of "p + 12" "l @ [e]" None] Suc.prems n by auto
  show ?case using e es len s r by simp
qed

lemma processIfd_loop_fail:
  "0 < k \<Longrightarrow> \<not> (0 \<le> p \<and> nat p + 12 * k \<le> length (contents f)) \<Longrightarrow>
   \<exists>es e. processIfd_loop hl be f k p l err = Some (es, Some e)"
proof (induction k arbitrary: p l err)
  case 0
  then show ?case by simp
next
  case (Suc k)
  show ?case
  proof (cases "0 \<le> p \<and> nat p + 12 \<le> length (contents f)")
    case False
    then show ?thesis using processIfd_loop_step_fail [of p f hl be k l err] by blast
  next
    case True
    then obtain e where s: "processIfd_loop hl be f (Suc k) p l err
                              = processIfd_loop hl be f k (p + 12) (l @ [e]) None"
      using processIfd_loop_step_ok [of p f hl be k l err] by blast
    have n: "nat (p + 12) = nat p + 12" using True by arith
    from True Suc.prems have k: "0 < k" by (cases k) auto
    have "\<not> (0 \<le> p + 12 \<and> nat (p + 12) + 12 * k \<le> length (contents f))"
      using Suc.prems(2) True n by simp
    from Suc.IH [OF k this] s show ?thesis by simp
  qed
qed

text \<open>
  C4. \<open>processIfd\<close> decodes the 2-byte entry count \<open>n\<close> at the offset; when the
  file holds the \<open>n\<close> 12-byte records that follow it, the function returns, with no
  error, exactly \<open>n\<close> entries, the records at \<open>offset + 2\<close>, \<open>offset + 14\<close>,
  ... decoded in order as tag, field type, count and value; when the file is too short
  for the count or for any record (also for a hostile count), or the offset is negative,
  it returns an error. It returns in every case: the loop runs at most \<open>n\<close> times.
\<close>

theorem processIfd_decodes_directory:
  "(0 \<le> p \<and> nat p + 2 \<le> length (contents f) \<longrightarrow>
      (\<exists>n. bytesToUShort hl be (take 2 (drop (nat p) (contents f))) = Some n
         \<and> (nat p + 2 + 12 * unat n \<le> length (contents f) \<longrightarrow>
              (\<exists>es. those (map (decodeEntry_spec hl be)
                              (records (unat n) (nat p + 2) (contents f))) = Some es
                   \<and> length es = unat n
                   \<and> processIfd hl be p f = Some (es, None)))
         \<and> (\<not> nat p + 2 + 12 * unat n \<le> length (contents f) \<longrightarrow>
              (\<exists>es e. processIfd hl be p f = Some (es, Some e)))))
   \<and> (\<not> (0 \<le> p \<and> nat p + 2 \<le> length (contents f)) \<longrightarrow>
        (\<exists>es e. processIfd hl be p f = Some (es, Some e)))"
proof (intro conjI impI)
  assume a: "0 \<le> p \<and> nat p + 2 \<le> length (contents f)"
  let ?bs = "take 2 (drop (nat p) (contents f))"
  have r: "readField p 2 f = (?bs, None)" using readField_ok [of p 2 f] a by simp
  have "length ?bs = 2" using a by auto
  then obtain n where n: "bytesToUShort hl be ?bs = Some n"
    using bytesToUShort_len2 by blast
  have p2: "nat (p + 2) = nat p + 2" using a by arith
  have ok: "\<exists>es. those (map (decodeEntry_spec hl be)
                         (records (unat n) (nat p + 2) (contents f))) = Some es
              \<and> length es = unat n
              \<and> processIfd hl be p f = Some (es, None)"
    if b: "nat p + 2 + 12 * unat n \<le> length (contents f)"
  proof -
    obtain es where es: "those (map (decodeEntry_spec hl be)
                                  (records (unat n) (nat (p + 2)) (contents f))) = Some es"
      and len: "length es = unat n"
      and l: "processIfd_loop hl be f (unat n) (p + 2) [] None
                = Some ([] @ es, if unat n = 0 then None else None)"
      using processIfd_loop_ok [of "p + 2" "unat n" f hl be "[]" None] a b p2 by auto
    show ?thesis using r n es len l p2 by (simp add: processIfd_def)
  qed
  have bad: "\<exists>es e. processIfd hl be p f = Some (es, Some e)"
    if b: "\<not> nat p + 2 + 12 * unat n \<le> length (contents f)"
  proof -
    from b a have k: "0 < unat n" by (cases "unat n") auto
    have "\<not> (0 \<le> p + 2 \<and> nat (p + 2) + 12 * unat n \<le> length (contents f))"
      using b p2 by simp
    from processIfd_loop_fail [OF k this, of hl be "[]" None] r n show ?thesis
      by (simp add: processIfd_def)
  qed
  from n ok bad
  show "\<exists>n. bytesToUShort hl be ?bs = Some n
         \<and> (nat p + 2 + 12 * unat n \<le> length (contents f) \<longrightarrow>
              (\<exists>es. those (map (decodeEntry_spec hl be)
                              (records (unat n) (nat p + 2) (contents f))) = Some es
                   \<and> length es = unat n
                   \<and> processIfd hl be p f = Some (es, None)))
         \<and> (\<not> nat p + 2 + 12 * unat n \<le> length (contents f) \<longrightarrow>
              (\<exists>es e. processIfd hl be p f = Some (es, Some e)))"
    by blast
next
  assume a: "\<not> (0 \<le> p \<and> nat p + 2 \<le> length (contents f))"
  then obtain bs e where r: "readField p 2 f = (bs, Some e)"
    using readField_fail [of p 2 f] by auto
  have "length bs = 2" using readField_length [OF r] by simp
  then obtain n where n: "bytesToUShort hl be bs = Some n"
    using bytesToUShort_len2 by blast
  show "\<exists>es e. processIfd hl be p f = Some (es, Some e)"
  proof (cases "unat n")
    case 0
    then show ?thesis using r n by (simp add: processIfd_def)
  next
    case (Suc k)
    have "0 \<le> p"
    proof (rule ccontr)
      assume "\<not> 0 \<le> p"
      then have "bs = replicate 2 0"
        using r by (simp add: readField_def ReadAt_def)
      then have "bs = [0, 0]" by (simp add: numeral_2_eq_2)
      then have "n = 0" using n by simp
      then show False using Suc by simp
    qed
    then have "\<not> (0 \<le> p + 2 \<and> nat (p + 2) + 12 \<le> length (contents f))"
      using a by auto
    then obtain e' where
      "processIfd_loop hl be f (Suc k) (p + 2) [] (Some e) = Some ([], Some e')"
      using processIfd_loop_step_fail [of "p + 2" f hl be k "[]" "Some e"] by blast
    then show ?thesis
      using r n Suc by (simp add: processIfd_def del: processIfd_loop.simps)
  qed
qed

theorem processIfd_decodes_directory_witness:
  "(0::int) \<le> 8
   \<and> nat 8 + 2 \<le> length (contents \<lparr>fname = ''a.raw'', contents = sample_nef\<rparr>)
   \<and> processIfd True False 8 \<lparr>fname = ''a.raw'', contents = sample_nef\<rparr>
       = Some ([\<lparr>tag = 0x014A, fieldType = 4, count = 1, valueOffset = 22\<rparr>], None)
   \<and> processIfd True False 26 \<lparr>fname = ''a.raw'', contents = sample_nef\<rparr>
       = Some ([\<lparr>tag = 0x0201, fieldType = 4, count = 1, valueOffset = 52\<rparr>,
                \<lparr>tag = 0x0202, fieldType = 4, count = 1, valueOffset = 2\<rparr>], None)
   \<and> processIfd True False 0 sample_hostile_count = Some ([], Some (ShortRead 0 2))"
proof -
  let ?f = "\<lparr>fname = ''a.raw'', contents = sample_nef\<rparr>"
  have a: "(0::int) \<le> 8 \<and> nat 8 + 2 \<le> length (contents ?f)"
    by (simp add: sample_nef_def)
  have e1: "processIfd True False 8 ?f
              = Some ([\<lparr>tag = 0x014A, fieldType = 4, count = 1, valueOffset = 22\<rparr>], None)"
    by code_simp
  have e2: "processIfd True False 26 ?f
       = Some ([\<lparr>tag = 0x0201, fieldType = 4, count = 1, valueOffset = 52\<rparr>,
                \<lparr>tag = 0x0202, fieldType = 4, count = 1, valueOffset = 2\<rparr>], None)"
    by code_simp
  have e3: "processIfd True False 0 sample_hostile_count = Some ([], Some (ShortRead 0 2))"
    by code_simp
  from processIfd_decodes_directory [of 8 ?f True False] a
  have "\<exists>n. bytesToUShort True False (take 2 (drop (nat 8) (contents ?f))) = Some n"
    by blast
  with a e1 e2 e3 show ?thesis by blast
qed

subsection \<open>Splitting\<close>

lemma Split_not_Nil: "Split s c \<noteq> []"
  by (induction s) (auto split: list.splits)

lemma Split_subset: "t \<in> set (Split s c) \<Longrightarrow> set t \<subseteq> set s"
proof (induction s arbitrary: t)
  case Nil
  then show ?case by simp
next
  case (Cons x xs)
  then show ?case
    by (fastforce split: if_splits list.splits)
qed

lemma Split_no_sep: "t \<in> set (Split s c) \<Longrightarrow> c \<notin> set t"
proof (induction s arbitrary: t)
  case Nil
  then show ?case by simp
next
  case (Cons x xs)
  then show ?case
    by (fastforce split: if_splits list.splits)
qed

subsection \<open>The steps of time.Parse\<close>

lemma isDigit_0: "isDigit (c # cs) 0 = (48 \<le> (of_char c :: nat) \<and> (of_char c :: nat) \<le> 57)"
  by (simp add: isDigit_def)

lemma isDigit_Suc: "isDigit (c # cs) (Suc n) = isDigit cs n"
  by (simp add: isDigit_def)

lemma isDigit_1: "isDigit (c # cs) 1 = isDigit cs 0"
  by (simp add: isDigit_def)

lemma isDigit_Nil: "isDigit [] i = False"
  by (simp add: isDigit_def)

lemma getnum_two:
  "isDigit [a] 0 \<Longrightarrow> isDigit [b] 0 \<Longrightarrow>
   getnum (a # b # rest) fixed = Some (digitVal a * 10 + digitVal b, rest)"
  by (simp add: getnum_def isDigit_0 isDigit_Suc isDigit_1)

lemma getnum_fixed_Some:
  assumes "getnum s True = Some (n, v)"
  shows "\<exists>a b. s = a # b # v \<and> isDigit [a] 0 \<and> isDigit [b] 0"
proof (cases s)
  case Nil
  with assms show ?thesis by (simp add: getnum_def isDigit_Nil)
next
  case (Cons a s')
  show ?thesis
  proof (cases s')
    case Nil
    with Cons assms show ?thesis
      by (simp add: getnum_def isDigit_0 isDigit_Suc isDigit_1 isDigit_Nil split: if_splits)
  next
    case (Cons b s'')
    with \<open>s = a # s'\<close> assms show ?thesis
      by (simp add: getnum_def isDigit_0 isDigit_Suc isDigit_1 split: if_splits)
  qed
qed

lemma getnum_free_Some:
  assumes "getnum s False = Some (n, v)"
  shows "(\<exists>a. s = a # v \<and> isDigit [a] 0 \<and> \<not> isDigit v 0)
       \<or> (\<exists>a b. s = a # b # v \<and> isDigit [a] 0 \<and> isDigit [b] 0)"
proof (cases s)
  case Nil
  with assms show ?thesis by (simp add: getnum_def isDigit_Nil)
next
  case (Cons a s')
  show ?thesis
  proof (cases s')
    case Nil
    with Cons assms show ?thesis
      by (simp add: getnum_def isDigit_0 isDigit_Suc isDigit_1 isDigit_Nil split: if_splits)
  next
    case (Cons b s'')
    with \<open>s = a # s'\<close> assms show ?thesis
      by (auto simp add: getnum_def isDigit_0 isDigit_Suc isDigit_1 split: if_splits)
  qed
qed

lemma skip_space: "skip v '' '' = (if v \<noteq> [] \<and> hd v \<noteq> CHR '' '' then None else Some (cutspace v))"
  by (simp add: cutspace_def)

lemma skip_colon: "skip v '':'' = (case v of [] \<Rightarrow> None | c # cs \<Rightarrow> if c \<noteq> CHR '':'' then None else Some cs)"
  by (simp split: list.splits)

lemma cutspace_Cons: "cutspace (c # cs) = (if c = CHR '' '' then cutspace cs else c # cs)"
  by (simp add: cutspace_def)

lemma lookup_names:
  "lookup shortMonthNames (''Jan'' @ rest) 0 = Some (0, rest)"
  "lookup shortMonthNames (''Feb'' @ rest) 0 = Some (1, rest)"
  "lookup shortMonthNames (''Mar'' @ rest) 0 = Some (2, rest)"
  "lookup shortMonthNames (''Apr'' @ rest) 0 = Some (3, rest)"
  "lookup shortMonthNames (''May'' @ rest) 0 = Some (4, rest)"
  "lookup shortMonthNames (''Jun'' @ rest) 0 = Some (5, rest)"
  "lookup shortMonthNames (''Jul'' @ rest) 0 = Some (6, rest)"
  "lookup shortMonthNames (''Aug'' @ rest) 0 = Some (7, rest)"
  "lookup shortMonthNames (''Sep'' @ rest) 0 = Some (8, rest)"
  "lookup shortMonthNames (''Oct'' @ rest) 0 = Some (9, rest)"
  "lookup shortMonthNames (''Nov'' @ rest) 0 = Some (10, rest)"
  "lookup shortMonthNames (''Dec'' @ rest) 0 = Some (11, rest)"
  by (simp_all add: shortMonthNames_def match_def lower_def)

lemma atoi_two_digits:
  "isDigit [a] 0 \<Longrightarrow> isDigit [b] 0 \<Longrightarrow> atoi [a, b] = Some (int (digitVal a * 10 + digitVal b))"
  by (auto simp add: atoi_def Let_def isDigit_0)

lemma string_of_byte_digit: "isDigit [a] 0 \<Longrightarrow> string_of_byte a = [a]"
  by (simp add: string_of_byte_def isDigit_0 Let_def)

lemma digit_not_space: "isDigit [c] 0 \<Longrightarrow> c \<noteq> CHR '' ''"
  by (auto simp add: isDigit_0)

lemma cutspace_id: "s \<noteq> [] \<Longrightarrow> hd s \<noteq> CHR '' '' \<Longrightarrow> cutspace s = s"
  by (cases s) (simp_all add: cutspace_def)

lemma list2_conv: "length t = 2 \<Longrightarrow> \<exists>a b. t = [a, b]"
  by (cases t; cases "tl t") auto

lemma list4_conv: "length t = 4 \<Longrightarrow> \<exists>a b c e. t = [a, b, c, e]"
  by (auto simp add: numeral_eq_Suc length_Suc_conv)

lemma time_Parse_fields_ok:
  assumes dg: "isDigit [d0] 0" "isDigit [d1] 0" "isDigit [y2] 0" "isDigit [y3] 0"
      "isDigit [h0] 0" "isDigit [h1] 0" "isDigit [m0] 0" "isDigit [m1] 0"
    and lk: "\<And>rest. lookup shortMonthNames (name @ rest) 0 = Some (k, rest)"
    and nm: "name \<noteq> []" "hd name \<noteq> CHR '' ''"
    and rg: "1 \<le> num2 [d0, d1]" "num2 [d0, d1] \<le> daysIn (k + 1) (year2 [y2, y3])"
      "num2 [h0, h1] < 24" "num2 [m0, m1] < 60"
  shows "time_Parse_fields
           ([d0, d1] @ '' '' @ name @ '' '' @ [y2, y3] @ '' '' @ [h0, h1] @ '':'' @ [m0, m1])
         = Some \<lparr>t_year = year2 [y2, y3], t_month = k + 1, t_day = num2 [d0, d1],
                  t_hour = num2 [h0, h1], t_minute = num2 [m0, m1]\<rparr>"
proof -
  have c1: "cutspace (name @ rest) = name @ rest" for rest
    using nm by (simp add: cutspace_id)
  have ns: "y2 \<noteq> CHR '' ''" "h0 \<noteq> CHR '' ''"
    using dg digit_not_space by blast+
  have g1: "getnum (d0 # d1 # rest) True = Some (num2 [d0, d1], rest)" for rest
    using getnum_two [OF dg(1) dg(2)] by (simp add: num2_def)
  have g2: "getnum (h0 # h1 # rest) False = Some (num2 [h0, h1], rest)" for rest
    using getnum_two [OF dg(5) dg(6)] by (simp add: num2_def)
  have g3: "getnum [m0, m1] True = Some (num2 [m0, m1], [])"
    using getnum_two [OF dg(7) dg(8)] by (simp add: num2_def)
  have a: "atoi [y2, y3] = Some (int (num2 [y2, y3]))"
    using atoi_two_digits [OF dg(3) dg(4)] by (simp add: num2_def)
  show ?thesis
    using rg
    by (auto simp add: time_Parse_fields_def g1 g2 g3 a lk c1 ns skip_space skip_colon
          cutspace_Cons year2_def add.commute not_less simp del: skip.simps)
qed
lemma numeric2: "numeric [a, b] = (isDigit [a] 0 \<and> isDigit [b] 0)"
  by (simp add: numeric_def)

lemma month_cases:
  assumes "mo \<in> set monthTokens"
  shows "\<exists>name k. toRfc822Date [y, mo, d] = Some (name, None)
           \<and> (\<forall>rest. lookup shortMonthNames (name @ rest) 0 = Some (k, rest))
           \<and> name \<noteq> [] \<and> hd name \<noteq> CHR '' '' \<and> CHR '' '' \<notin> set name \<and> num2 mo = k + 1"
proof -
  have c: "\<exists>name k. toRfc822Date [y, mo, d] = Some (name, None)
           \<and> (\<forall>rest. lookup shortMonthNames (name @ rest) 0 = Some (k, rest))
           \<and> name \<noteq> [] \<and> hd name \<noteq> CHR '' '' \<and> CHR '' '' \<notin> set name \<and> num2 mo = k + 1"
    if "toRfc822Date [y, mo, d] = Some (name, None)"
      and "\<And>rest. lookup shortMonthNames (name @ rest) 0 = Some (k, rest)"
      and "name \<noteq> []" and "hd name \<noteq> CHR '' ''" and "CHR '' '' \<notin> set name"
      and "num2 mo = k + 1" for name k
    using that by blast
  from assms consider "mo = ''01''" | "mo = ''02''" | "mo = ''03''" | "mo = ''04''"
    | "mo = ''05''" | "mo = ''06''" | "mo = ''07''" | "mo = ''08''" | "mo = ''09''"
    | "mo = ''10''" | "mo = ''11''" | "mo = ''12''"
    by (auto simp add: monthTokens_def)
  then show ?thesis
  proof cases
    case 1
    show ?thesis
      by (rule c [of "''Jan''" 0])
         (simp_all add: 1 toRfc822Date_def index_at_def lookup_names [simplified] num2_def digitVal_def)
  next
    case 2
    show ?thesis
      by (rule c [of "''Feb''" 1])
         (simp_all add: 2 toRfc822Date_def index_at_def lookup_names [simplified] num2_def digitVal_def)
  next
    case 3
    show ?thesis
      by (rule c [of "''Mar''" 2])
         (simp_all add: 3 toRfc822Date_def index_at_def lookup_names [simplified] num2_def digitVal_def)
  next
    case 4
    show ?thesis
      by (rule c [of "''Apr''" 3])
         (simp_all add: 4 toRfc822Date_def index_at_def lookup_names [simplified] num2_def digitVal_def)
  next
    case 5
    show ?thesis
      by (rule c [of "''May''" 4])
         (simp_all add: 5 toRfc822Date_def index_at_def lookup_names [simplified] num2_def digitVal_def)
  next
    case 6
    show ?thesis
      by (rule c [of "''Jun''" 5])
         (simp_all add: 6 toRfc822Date_def index_at_def lookup_names [simplified] num2_def digitVal_def)
  next
    case 7
    show ?thesis
      by (rule c [of "''Jul''" 6])
         (simp_all add: 7 toRfc822Date_def index_at_def lookup_names [simplified] num2_def digitVal_def)
  next
    case 8
    show ?thesis
      by (rule c [of "''Aug''" 7])
         (simp_all add: 8 toRfc822Date_def index_at_def lookup_names [simplified] num2_def digitVal_def)
  next
    case 9
    show ?thesis
      by (rule c [of "''Sep''" 8])
         (simp_all add: 9 toRfc822Date_def index_at_def lookup_names [simplified] num2_def digitVal_def)
  next
    case 10
    show ?thesis
      by (rule c [of "''Oct''" 9])
         (simp_all add: 10 toRfc822Date_def index_at_def lookup_names [simplified] num2_def digitVal_def)
  next
    case 11
    show ?thesis
      by (rule c [of "''Nov''" 10])
         (simp_all add: 11 toRfc822Date_def index_at_def lookup_names [simplified] num2_def digitVal_def)
  next
    case 12
    show ?thesis
      by (rule c [of "''Dec''" 11])
         (simp_all add: 12 toRfc822Date_def index_at_def lookup_names [simplified] num2_def digitVal_def)
  qed
qed

lemma parseDateTime_wellformed:
  assumes sp: "Split s CHR '' '' = [dt, tt]" "Split dt CHR '':'' = [y, mo, d]"
      "Split tt CHR '':'' = [h, mi, se]"
    and wf: "wellformed y mo d h mi"
  shows "parseDateTime s = Some (timestamp y mo d h mi, None)"
proof -
  from wf obtain y0 y1 y2 y3 where y: "y = [y0, y1, y2, y3]"
    using list4_conv unfolding wellformed_def by blast
  from wf obtain d0 d1 where d: "d = [d0, d1]"
    using list2_conv unfolding wellformed_def by blast
  from wf obtain h0 h1 where h: "h = [h0, h1]"
    using list2_conv unfolding wellformed_def by blast
  from wf obtain m0 m1 where mi: "mi = [m0, m1]"
    using list2_conv unfolding wellformed_def by blast
  from wf have mo: "mo \<in> set monthTokens" by (simp add: wellformed_def)
  obtain name k where t: "toRfc822Date [y, mo, d] = Some (name, None)"
    and lk: "\<And>rest. lookup shortMonthNames (name @ rest) 0 = Some (k, rest)"
    and nm: "name \<noteq> []" "hd name \<noteq> CHR '' ''"
    and k: "num2 mo = k + 1"
    using month_cases [OF mo, of y d] by blast
  from wf y d h mi have dg: "isDigit [d0] 0" "isDigit [d1] 0" "isDigit [y2] 0" "isDigit [y3] 0"
      "isDigit [h0] 0" "isDigit [h1] 0" "isDigit [m0] 0" "isDigit [m1] 0"
    by (simp_all add: wellformed_def numeric_def)
  from wf y d h mi k
  have rg: "1 \<le> num2 [d0, d1]" "num2 [d0, d1] \<le> daysIn (k + 1) (year2 [y2, y3])"
      "num2 [h0, h1] < 24" "num2 [m0, m1] < 60"
    by (simp_all add: wellformed_def)
  note P = time_Parse_fields_ok [OF dg lk nm rg]
  show ?thesis
    using sp t P k
    by (simp add: parseDateTime_def Let_def y d h mi index_at_def string_of_byte_digit dg
          time_Parse_def timestamp_def)
qed

lemma parseDateTime_not_two_tokens:
  "length (Split s CHR '' '') \<noteq> 2 \<Longrightarrow>
   parseDateTime s = Some (zeroTime, Some (InvalidDateTime s))"
  by (simp add: parseDateTime_def Let_def)

lemma parseDateTime_not_three_tokens:
  "Split s CHR '' '' = [dt, tt] \<Longrightarrow>
   length (Split dt CHR '':'') \<noteq> 3 \<or> length (Split tt CHR '':'') \<noteq> 3 \<Longrightarrow>
   parseDateTime s = Some (zeroTime, Some (InvalidDateTimeFormat dt tt))"
  by (auto simp add: parseDateTime_def Let_def)

lemma parseDateTime_invalid_month:
  "Split s CHR '' '' = [dt, tt] \<Longrightarrow> Split dt CHR '':'' = [y, mo, d] \<Longrightarrow>
   length (Split tt CHR '':'') = 3 \<Longrightarrow> mo \<notin> set monthTokens \<Longrightarrow>
   parseDateTime s = Some (zeroTime, Some (InvalidMonth mo))"
  by (simp add: parseDateTime_def Let_def toRfc822Date_invalid)

lemma string_of_byte_ascii: "(of_char c :: nat) < 128 \<Longrightarrow> string_of_byte c = [c]"
  by (simp add: string_of_byte_def Let_def)

lemma string_of_byte_utf8:
  assumes "128 \<le> (of_char c :: nat)"
  shows "\<exists>a b. string_of_byte c = [a, b] \<and> 192 \<le> (of_char a :: nat)"
proof -
  have "(of_char c :: nat) div 64 < 4"
    using nat_of_char_less_256 [of c] by arith
  then have "(192 + (of_char c :: nat) div 64) mod 256 = 192 + (of_char c :: nat) div 64"
    by simp
  then show ?thesis using assms by (simp add: string_of_byte_def Let_def)
qed

lemma string_of_byte_hd:
  "c \<noteq> CHR '' '' \<Longrightarrow> string_of_byte c \<noteq> [] \<and> hd (string_of_byte c) \<noteq> CHR '' ''"
proof (cases "(of_char c :: nat) < 128")
  case True
  assume "c \<noteq> CHR '' ''"
  with True show ?thesis by (simp add: string_of_byte_ascii)
next
  case False
  then obtain a b where "string_of_byte c = [a, b]" and "192 \<le> (of_char a :: nat)"
    using string_of_byte_utf8 [of c] by auto
  then show ?thesis by auto
qed

lemma atoi_nondigit_second: "\<not> isDigit [b] 0 \<Longrightarrow> atoi [a, b] = None"
  by (auto simp add: atoi_def Let_def)

lemma atoi_bad_first: "192 \<le> (of_char a :: nat) \<Longrightarrow> atoi (a # rest) = None"
  by (auto simp add: atoi_def Let_def isDigit_0)

lemma year_chars:
  assumes "atoi (take 2 (string_of_byte y2 @ string_of_byte y3 @ rest)) = Some q"
  shows "string_of_byte y2 = [y2] \<and> string_of_byte y3 = [y3]"
proof (cases "(of_char y2 :: nat) < 128")
  case False
  then obtain a b where "string_of_byte y2 = [a, b]" and "192 \<le> (of_char a :: nat)"
    using string_of_byte_utf8 [of y2] by auto
  with assms show ?thesis by (simp add: atoi_bad_first)
next
  case True
  note y2 = string_of_byte_ascii [OF True]
  show ?thesis
  proof (cases "(of_char y3 :: nat) < 128")
    case True
    with y2 show ?thesis by (simp add: string_of_byte_ascii)
  next
    case False
    then obtain a b where s: "string_of_byte y3 = [a, b]" and "192 \<le> (of_char a :: nat)"
      using string_of_byte_utf8 [of y3] by auto
    then have "\<not> isDigit [a] 0" by (simp add: isDigit_0)
    with assms y2 s show ?thesis by (simp add: atoi_nondigit_second)
  qed
qed
lemma not_digit_colon: "\<not> isDigit [CHR '':''] 0"
  by (simp add: isDigit_def)

lemma time_Parse_fields_SomeD:
  assumes "time_Parse_fields v0 = Some t"
  shows "\<exists>dn v1 v2 m v3 v4 yy v6 hn v7 v8 mn.
     getnum v0 True = Some (dn, v1) \<and> skip v1 '' '' = Some v2
     \<and> lookup shortMonthNames v2 0 = Some (m, v3) \<and> skip v3 '' '' = Some v4
     \<and> atoi (take 2 v4) = Some yy \<and> skip (drop 2 v4) '' '' = Some v6
     \<and> getnum v6 False = Some (hn, v7) \<and> skip v7 '':'' = Some v8
     \<and> getnum v8 True = Some (mn, [])"
  using assms
  by (auto simp add: time_Parse_fields_def bind_eq_Some_conv split: if_splits
           simp del: skip.simps)

lemma skip_space_Some:
  "skip v '' '' = Some w \<Longrightarrow> (v = [] \<or> hd v = CHR '' '') \<and> w = cutspace v"
  by (auto simp add: skip_space split: if_splits simp del: skip.simps)

lemma skip_colon_Some: "skip v '':'' = Some w \<Longrightarrow> v = CHR '':'' # w"
  by (auto simp add: skip_colon split: list.splits if_splits)

lemma cutspace_space: "cutspace (CHR '' '' # s) = cutspace s"
  by (simp add: cutspace_def)

lemma time_Parse_fields_Some_numeric:
  assumes p: "time_Parse_fields
                (d @ CHR '' '' # name @ CHR '' '' # string_of_byte y2 @ string_of_byte y3
                   @ CHR '' '' # h @ CHR '':'' # mi) = Some t"
    and nd: "CHR '' '' \<notin> set d"
    and nh: "CHR '' '' \<notin> set h" "CHR '':'' \<notin> set h"
    and ny: "y2 \<noteq> CHR '' ''"
    and lk: "\<And>rest. lookup shortMonthNames (name @ rest) 0 = Some (k, rest)"
    and nm: "name \<noteq> []" "hd name \<noteq> CHR '' ''"
  shows "numeric d \<and> numeric h \<and> numeric mi"
proof -
  let ?R3 = "h @ CHR '':'' # mi"
  let ?R2 = "string_of_byte y2 @ string_of_byte y3 @ CHR '' '' # ?R3"
  let ?R1 = "name @ CHR '' '' # ?R2"
  obtain dn v1 v2 m v3 v4 yy v6 hn v7 v8 mn where
    s1: "getnum (d @ CHR '' '' # ?R1) True = Some (dn, v1)"
    and s2: "skip v1 '' '' = Some v2"
    and s3: "lookup shortMonthNames v2 0 = Some (m, v3)"
    and s4: "skip v3 '' '' = Some v4"
    and s5: "atoi (take 2 v4) = Some yy"
    and s6: "skip (drop 2 v4) '' '' = Some v6"
    and s7: "getnum v6 False = Some (hn, v7)"
    and s8: "skip v7 '':'' = Some v8"
    and s9: "getnum v8 True = Some (mn, [])"
    using time_Parse_fields_SomeD [OF p] by blast
  \<comment> \<open>the day\<close>
  obtain a b where e1: "d @ CHR '' '' # ?R1 = a # b # v1"
    and da: "isDigit [a] 0" and db: "isDigit [b] 0"
    using getnum_fixed_Some [OF s1] by blast
  have sa: "a \<noteq> CHR '' ''" and sb: "b \<noteq> CHR '' ''"
    using da db digit_not_space by blast+
  obtain d' where d: "d = a # b # d'" and v1: "v1 = d' @ CHR '' '' # ?R1"
  proof (cases d)
    case Nil
    with e1 sa show ?thesis by simp
  next
    case (Cons x xs)
    show ?thesis
    proof (cases xs)
      case Nil
      with Cons e1 sb show ?thesis by simp
    next
      case (Cons x' xs')
      with \<open>d = x # xs\<close> e1 that show ?thesis by simp
    qed
  qed
  have d'': "d' = []"
  proof (cases d')
    case Nil
    then show ?thesis .
  next
    case (Cons x xs)
    with v1 skip_space_Some [OF s2] have "x = CHR '' ''" by simp
    with Cons d nd show ?thesis by simp
  qed
  have numd: "numeric d" using d d'' da db by (simp add: numeric2)
  have c1: "cutspace ?R1 = ?R1" using nm by (simp add: cutspace_id)
  have v2: "v2 = ?R1"
    using skip_space_Some [OF s2] v1 d'' c1 by (simp add: cutspace_space)
  \<comment> \<open>the month and the year\<close>
  have v3: "v3 = CHR '' '' # ?R2" using s3 v2 lk [of "CHR '' '' # ?R2"] by simp
  have "cutspace ?R2 = ?R2"
    using string_of_byte_hd [OF ny] by (simp add: cutspace_id)
  then have v4: "v4 = ?R2"
    using skip_space_Some [OF s4] v3 by (simp add: cutspace_space)
  have yy: "string_of_byte y2 = [y2] \<and> string_of_byte y3 = [y3]"
    using s5 v4 year_chars [of y2 y3 "CHR '' '' # ?R3" yy] by simp
  then have dr: "drop 2 v4 = CHR '' '' # ?R3" using v4 by simp
  \<comment> \<open>the hour\<close>
  have "hd ?R3 \<noteq> CHR '' ''" using nh by (cases h) auto
  then have "cutspace ?R3 = ?R3" by (simp add: cutspace_id)
  then have v6: "v6 = ?R3"
    using skip_space_Some [OF s6] dr by (simp add: cutspace_space)
  have v7: "v7 = CHR '':'' # v8" using skip_colon_Some [OF s8] .
  have hm: "numeric h \<and> v8 = mi"
  proof -
    from getnum_free_Some [OF s7] v6 v7
    consider (one) x where "?R3 = x # CHR '':'' # v8" "isDigit [x] 0"
      | (two) x x' where "?R3 = x # x' # CHR '':'' # v8" "isDigit [x] 0" "isDigit [x'] 0"
      by auto
    then show ?thesis
    proof cases
      case one
      show ?thesis
      proof (cases h)
        case Nil
        with one not_digit_colon show ?thesis by simp
      next
        case (Cons z zs)
        with one nh have "zs = []" by (cases zs) auto
        with Cons one show ?thesis by (simp add: numeric_def)
      qed
    next
      case two
      show ?thesis
      proof (cases h)
        case Nil
        with two not_digit_colon show ?thesis by simp
      next
        case (Cons z zs)
        show ?thesis
        proof (cases zs)
          case Nil
          with Cons two not_digit_colon show ?thesis by simp
        next
          case (Cons z' zs')
          with \<open>h = z # zs\<close> two nh have "zs' = []" by (cases zs') auto
          with Cons \<open>h = z # zs\<close> two show ?thesis by (simp add: numeric_def)
        qed
      qed
    qed
  qed
  \<comment> \<open>the minute\<close>
  obtain x x' where "v8 = [x, x']" "isDigit [x] 0" "isDigit [x'] 0"
    using getnum_fixed_Some [OF s9] by blast
  with hm have "numeric mi" by (auto simp add: numeric2)
  with numd hm show ?thesis by simp
qed
lemma parseDateTime_non_numeric:
  assumes sp: "Split s CHR '' '' = [dt, tt]" "Split dt CHR '':'' = [y, mo, d]"
      "Split tt CHR '':'' = [h, mi, se]"
    and ly: "4 \<le> length y"
    and nn: "\<not> numeric d \<or> \<not> numeric h \<or> \<not> numeric mi"
  shows "\<exists>e. parseDateTime s = Some (zeroTime, Some e)"
proof (cases "mo \<in> set monthTokens")
  case False
  then show ?thesis using parseDateTime_invalid_month [OF sp(1) sp(2)] sp(3) by simp
next
  case True
  obtain name k where t: "toRfc822Date [y, mo, d] = Some (name, None)"
    and lk: "\<And>rest. lookup shortMonthNames (name @ rest) 0 = Some (k, rest)"
    and nm: "name \<noteq> []" "hd name \<noteq> CHR '' ''"
    using month_cases [OF True, of y d] by blast
  have dt: "CHR '' '' \<notin> set dt" and tt: "CHR '' '' \<notin> set tt"
    using Split_no_sep [of _ s "CHR '' ''"] sp(1) by simp_all
  have "set d \<subseteq> set dt" "set y \<subseteq> set dt"
    using Split_subset [of _ dt "CHR '':''"] sp(2) by simp_all
  with dt have nd: "CHR '' '' \<notin> set d" and nys: "CHR '' '' \<notin> set y" by auto
  have "set h \<subseteq> set tt" using Split_subset [of h tt "CHR '':''"] sp(3) by simp
  with tt have nh1: "CHR '' '' \<notin> set h" by auto
  have nh2: "CHR '':'' \<notin> set h" using Split_no_sep [of h tt "CHR '':''"] sp(3) by simp
  have "y ! 2 \<in> set y" using ly by simp
  with nys have ny: "y ! 2 \<noteq> CHR '' ''" by auto
  have ix: "index_at y 2 = Some (y ! 2)" "index_at y 3 = Some (y ! 3)"
    using ly by (simp_all add: index_at_def)
  let ?v = "d @ CHR '' '' # name @ CHR '' '' # string_of_byte (y ! 2) @ string_of_byte (y ! 3)
              @ CHR '' '' # h @ CHR '':'' # mi"
  have "time_Parse_fields ?v = None"
  proof (cases "time_Parse_fields ?v")
    case None
    then show ?thesis .
  next
    case (Some t')
    from time_Parse_fields_Some_numeric [OF Some nd nh1 nh2 ny lk nm] nn
    show ?thesis by simp
  qed
  then have "parseDateTime s = Some (zeroTime, Some TimeParseError)"
    using sp t ix by (simp add: parseDateTime_def Let_def time_Parse_def)
  then show ?thesis by simp
qed

text \<open>
  C7, the claim as it stands fails: a field that is not numeric does not always make
  \<open>parseDateTime\<close> return an error. The seconds sub-token is never read, and of the
  year only the third and fourth characters are.
\<close>

theorem parseDateTime_non_numeric_field_counterexample:
  "Split ''2010:08:10 12:11:AA'' CHR '' '' = [''2010:08:10'', ''12:11:AA'']
   \<and> Split ''2010:08:10'' CHR '':'' = [''2010'', ''08'', ''10'']
   \<and> Split ''12:11:AA'' CHR '':'' = [''12'', ''11'', ''AA'']
   \<and> \<not> numeric ''AA''
   \<and> parseDateTime ''2010:08:10 12:11:AA''
       = Some (\<lparr>t_year = 2010, t_month = 8, t_day = 10, t_hour = 12, t_minute = 11\<rparr>, None)
   \<and> Split ''ab10:08:10'' CHR '':'' = [''ab10'', ''08'', ''10'']
   \<and> \<not> numeric ''ab10''
   \<and> parseDateTime ''ab10:08:10 12:11:07''
       = Some (\<lparr>t_year = 2010, t_month = 8, t_day = 10, t_hour = 12, t_minute = 11\<rparr>, None)"
  by code_simp

text \<open>
  C7, amended. \<open>parseDateTime\<close> returns an error when the input does not split on
  the space into exactly two tokens, when the date or the time token does not split on
  \<open>:\<close> into exactly three sub-tokens, when the month sub-token is outside
  \<open>01\<close> .. \<open>12\<close>, and, for a year sub-token of at least four characters, when
  the day, the hour or the minute sub-token is not numeric. On a well-formed
  \<open>YYYY:MM:DD HH:MM:SS\<close> input (a day of the month, an hour below 24, a minute below
  60) it returns, with no error, the time with that day, month, two-digit year, hour and
  minute, whatever the seconds sub-token is.
\<close>

theorem parseDateTime_timestamp_and_errors:
  "(length (Split s CHR '' '') \<noteq> 2 \<longrightarrow>
      parseDateTime s = Some (zeroTime, Some (InvalidDateTime s)))
   \<and> (Split s CHR '' '' = [dt, tt] \<longrightarrow>
        (length (Split dt CHR '':'') \<noteq> 3 \<or> length (Split tt CHR '':'') \<noteq> 3 \<longrightarrow>
           parseDateTime s = Some (zeroTime, Some (InvalidDateTimeFormat dt tt)))
      \<and> (Split dt CHR '':'' = [y, mo, d] \<and> Split tt CHR '':'' = [h, mi, se] \<longrightarrow>
           (mo \<notin> set monthTokens \<longrightarrow>
              parseDateTime s = Some (zeroTime, Some (InvalidMonth mo)))
         \<and> (4 \<le> length y \<and> (\<not> numeric d \<or> \<not> numeric h \<or> \<not> numeric mi) \<longrightarrow>
              (\<exists>e. parseDateTime s = Some (zeroTime, Some e)))
         \<and> (wellformed y mo d h mi \<longrightarrow>
              parseDateTime s = Some (timestamp y mo d h mi, None))))"
proof (intro conjI impI)
  assume "length (Split s CHR '' '') \<noteq> 2"
  then show "parseDateTime s = Some (zeroTime, Some (InvalidDateTime s))"
    by (rule parseDateTime_not_two_tokens)
next
  assume "Split s CHR '' '' = [dt, tt]"
    and "length (Split dt CHR '':'') \<noteq> 3 \<or> length (Split tt CHR '':'') \<noteq> 3"
  then show "parseDateTime s = Some (zeroTime, Some (InvalidDateTimeFormat dt tt))"
    by (rule parseDateTime_not_three_tokens)
next
  assume a: "Split s CHR '' '' = [dt, tt]"
    and b: "Split dt CHR '':'' = [y, mo, d] \<and> Split tt CHR '':'' = [h, mi, se]"
    and c: "mo \<notin> set monthTokens"
  from b have "length (Split tt CHR '':'') = 3" by simp
  with a b c show "parseDateTime s = Some (zeroTime, Some (InvalidMonth mo))"
    using parseDateTime_invalid_month by blast
next
  assume a: "Split s CHR '' '' = [dt, tt]"
    and b: "Split dt CHR '':'' = [y, mo, d] \<and> Split tt CHR '':'' = [h, mi, se]"
    and c: "4 \<le> length y \<and> (\<not> numeric d \<or> \<not> numeric h \<or> \<not> numeric mi)"
  then show "\<exists>e. parseDateTime s = Some (zeroTime, Some e)"
    using parseDateTime_non_numeric [of s dt tt y mo d h mi se] by blast
next
  assume a: "Split s CHR '' '' = [dt, tt]"
    and b: "Split dt CHR '':'' = [y, mo, d] \<and> Split tt CHR '':'' = [h, mi, se]"
    and c: "wellformed y mo d h mi"
  then show "parseDateTime s = Some (timestamp y mo d h mi, None)"
    using parseDateTime_wellformed [of s dt tt y mo d h mi se] by blast
qed

theorem parseDateTime_timestamp_and_errors_witness:
  "Split ''2010:08:10 12:11:07'' CHR '' '' = [''2010:08:10'', ''12:11:07'']
   \<and> Split ''2010:08:10'' CHR '':'' = [''2010'', ''08'', ''10'']
   \<and> Split ''12:11:07'' CHR '':'' = [''12'', ''11'', ''07'']
   \<and> wellformed ''2010'' ''08'' ''10'' ''12'' ''11''
   \<and> parseDateTime ''2010:08:10 12:11:07''
       = Some (\<lparr>t_year = 2010, t_month = 8, t_day = 10, t_hour = 12, t_minute = 11\<rparr>, None)
   \<and> length (Split [] CHR '' '') \<noteq> 2
   \<and> parseDateTime [] = Some (zeroTime, Some (InvalidDateTime []))
   \<and> Split ''2010:12:10 AA:BB:CC'' CHR '' '' = [''2010:12:10'', ''AA:BB:CC'']
   \<and> Split ''2010:12:10'' CHR '':'' = [''2010'', ''12'', ''10'']
   \<and> Split ''AA:BB:CC'' CHR '':'' = [''AA'', ''BB'', ''CC'']
   \<and> 4 \<le> length ''2010'' \<and> \<not> numeric ''AA''
   \<and> parseDateTime ''2010:12:10 AA:BB:CC'' = Some (zeroTime, Some TimeParseError)"
proof -
  have a: "Split ''2010:08:10 12:11:07'' CHR '' '' = [''2010:08:10'', ''12:11:07'']" by simp
  have b: "Split ''2010:08:10'' CHR '':'' = [''2010'', ''08'', ''10'']" by simp
  have c: "Split ''12:11:07'' CHR '':'' = [''12'', ''11'', ''07'']" by simp
  have w: "wellformed ''2010'' ''08'' ''10'' ''12'' ''11''" by code_simp
  have t: "timestamp ''2010'' ''08'' ''10'' ''12'' ''11''
             = \<lparr>t_year = 2010, t_month = 8, t_day = 10, t_hour = 12, t_minute = 11\<rparr>"
    by code_simp
  have e: "length (Split [] CHR '' '') \<noteq> 2" by simp
  have a2: "Split ''2010:12:10 AA:BB:CC'' CHR '' '' = [''2010:12:10'', ''AA:BB:CC'']" by simp
  have b2: "Split ''2010:12:10'' CHR '':'' = [''2010'', ''12'', ''10'']" by simp
  have c2: "Split ''AA:BB:CC'' CHR '':'' = [''AA'', ''BB'', ''CC'']" by simp
  have l2: "4 \<le> length ''2010''" by simp
  have n2: "\<not> numeric ''AA''" by code_simp
  have r2: "parseDateTime ''2010:12:10 AA:BB:CC'' = Some (zeroTime, Some TimeParseError)"
    by code_simp
  from parseDateTime_timestamp_and_errors
         [of "''2010:08:10 12:11:07''" "''2010:08:10''" "''12:11:07''"
             "''2010''" "''08''" "''10''" "''12''" "''11''" "''07''"] a b c w
  have r1: "parseDateTime ''2010:08:10 12:11:07''
              = Some (timestamp ''2010'' ''08'' ''10'' ''12'' ''11'', None)"
    by blast
  from parseDateTime_timestamp_and_errors [of "[]"] e
  have r3: "parseDateTime [] = Some (zeroTime, Some (InvalidDateTime []))" by blast
  from a b c w r1 t e r3 a2 b2 c2 l2 n2 r2 show ?thesis by (simp only: simp_thms)
qed

end
